theory Spec2Isabelle
  imports Main "HOL-Library.Word"
begin

unbundle bit_operations_syntax

section \<open>Strings and regular expressions of the runtime\<close>

text \<open>
  A JavaScript string is a sequence of 16-bit code units; \<open>length\<close> counts code units,
  as \<^verbatim>\<open>str.length\<close> does. ASCII literals of the source are written with \<open>js\<close>.
\<close>

type_synonym jsstring = "16 word list"

definition cu :: "char \<Rightarrow> 16 word" where
  "cu c = of_char c"

definition js :: "string \<Rightarrow> jsstring" where
  "js s = map cu s"

text \<open>
  A character class \<^verbatim>\<open>[...]\<close> of a regular expression without the \<^verbatim>\<open>u\<close> flag is a list
  of inclusive code-unit ranges.
\<close>

type_synonym char_class = "(16 word \<times> 16 word) list"

definition in_class :: "char_class \<Rightarrow> 16 word \<Rightarrow> bool" where
  "in_class rs c = list_ex (\<lambda>(lo, hi). lo \<le> c \<and> c \<le> hi) rs"

text \<open>\<^verbatim>\<open>str.replace(/[class]/g, '')\<close>: every code unit of the class is dropped.\<close>

fun remove_class :: "char_class \<Rightarrow> jsstring \<Rightarrow> jsstring" where
  "remove_class rs [] = []"
| "remove_class rs (c # cs) =
     (if in_class rs c then remove_class rs cs else c # remove_class rs cs)"

section \<open>Text sanitizer\<close>

text \<open>
  \<^verbatim>\<open>function stripControlChars(str) {
    return str.replace(/[\u0000-\u001F\u007F\u200B-\u200D\uFEFF\u202A-\u202E]/g, '');
  }\<close>
\<close>

definition CONTROL_CLASS :: char_class where
  "CONTROL_CLASS =
     [(0x0000, 0x001F), (0x007F, 0x007F), (0x200B, 0x200D), (0xFEFF, 0xFEFF), (0x202A, 0x202E)]"

definition stripControlChars :: "jsstring \<Rightarrow> jsstring" where
  "stripControlChars str = remove_class CONTROL_CLASS str"

text \<open>
  The categories of the specification, written from its words: ASCII control characters
  (0x00 to 0x1F and 0x7F), the zero-width space, non-joiner and joiner (U+200B to U+200D),
  the byte-order mark (U+FEFF), and the bidirectional override characters, which are
  LEFT-TO-RIGHT OVERRIDE (U+202D) and RIGHT-TO-LEFT OVERRIDE (U+202E).
\<close>

definition is_ascii_control :: "16 word \<Rightarrow> bool" where
  "is_ascii_control c = (c \<le> 0x1F \<or> c = 0x7F)"

definition is_zero_width_mark :: "16 word \<Rightarrow> bool" where
  "is_zero_width_mark c = (c = 0x200B \<or> c = 0x200C \<or> c = 0x200D)"

definition is_byte_order_mark :: "16 word \<Rightarrow> bool" where
  "is_byte_order_mark c = (c = 0xFEFF)"

definition is_bidi_override :: "16 word \<Rightarrow> bool" where
  "is_bidi_override c = (c = 0x202D \<or> c = 0x202E)"

definition listed_category :: "16 word \<Rightarrow> bool" where
  "listed_category c =
     (is_ascii_control c \<or> is_zero_width_mark c \<or> is_byte_order_mark c \<or> is_bidi_override c)"

text \<open>
  The embedding controls next to the overrides: LEFT-TO-RIGHT EMBEDDING (U+202A),
  RIGHT-TO-LEFT EMBEDDING (U+202B) and POP DIRECTIONAL FORMATTING (U+202C).
\<close>

definition is_bidi_embedding :: "16 word \<Rightarrow> bool" where
  "is_bidi_embedding c = (c = 0x202A \<or> c = 0x202B \<or> c = 0x202C)"

text \<open>The code units that the sanitizer deletes, named one by one.\<close>

definition sanitizer_removes :: "16 word \<Rightarrow> bool" where
  "sanitizer_removes c =
     (c \<le> 0x1F \<or> c = 0x7F \<or> c = 0x200B \<or> c = 0x200C \<or> c = 0x200D \<or> c = 0xFEFF \<or>
      c = 0x202A \<or> c = 0x202B \<or> c = 0x202C \<or> c = 0x202D \<or> c = 0x202E)"

section \<open>String operations of the runtime\<close>

text \<open>
  \<^verbatim>\<open>String.prototype.trim\<close> removes leading and trailing WhiteSpace and LineTerminator
  code units: TAB, LF, VT, FF, CR, SPACE, NBSP, U+1680, U+2000 to U+200A, U+2028, U+2029,
  U+202F, U+205F, U+3000 and U+FEFF.
\<close>

definition WHITESPACE_CLASS :: char_class where
  "WHITESPACE_CLASS =
     [(0x0009, 0x000D), (0x0020, 0x0020), (0x00A0, 0x00A0), (0x1680, 0x1680), (0x2000, 0x200A),
      (0x2028, 0x2029), (0x202F, 0x202F), (0x205F, 0x205F), (0x3000, 0x3000), (0xFEFF, 0xFEFF)]"

definition is_whitespace :: "16 word \<Rightarrow> bool" where
  "is_whitespace c = in_class WHITESPACE_CLASS c"

definition trimStart :: "jsstring \<Rightarrow> jsstring" where
  "trimStart s = dropWhile is_whitespace s"

definition trim :: "jsstring \<Rightarrow> jsstring" where
  "trim s = rev (dropWhile is_whitespace (rev (dropWhile is_whitespace s)))"

definition is_ascii :: "16 word \<Rightarrow> bool" where
  "is_ascii c = (c < 0x80)"

definition ascii_lower :: "16 word \<Rightarrow> 16 word" where
  "ascii_lower c = (if 0x41 \<le> c \<and> c \<le> 0x5A then c + 0x20 else c)"

definition ascii_upper :: "16 word \<Rightarrow> 16 word" where
  "ascii_upper c = (if 0x61 \<le> c \<and> c \<le> 0x7A then c - 0x20 else c)"

fun tails :: "'a list \<Rightarrow> 'a list list" where
  "tails [] = [Nil]"
| "tails (x # xs) = (x # xs) # tails xs"

definition startsWith :: "jsstring \<Rightarrow> jsstring \<Rightarrow> bool" where
  "startsWith s w = (take (length w) s = w)"

definition includes_sub :: "jsstring \<Rightarrow> jsstring \<Rightarrow> bool" where
  "includes_sub s w = list_ex (\<lambda>t. startsWith t w) (tails s)"

section \<open>Values and services supplied by the platform\<close>

text \<open>A JSON value as \<^verbatim>\<open>JSON.parse\<close> returns it; a number keeps its source text.\<close>

datatype json =
    JNull
  | JBool bool
  | JNum jsstring
  | JStr jsstring
  | JArr "json list"
  | JObj "(jsstring \<times> json) list"

text \<open>The components of a \<^verbatim>\<open>URL\<close> object that the code reads, writes or serialises.\<close>

record url =
  protocol :: jsstring
  username :: jsstring
  password :: jsstring
  hostname :: jsstring
  port :: jsstring
  pathname :: jsstring
  search :: jsstring
  hash :: jsstring

text \<open>
  The Unicode tables and the URL and JSON parsers of the runtime are not part of the
  repository. They are parameters of the model: every theorem below that mentions a
  platform \<open>P\<close> holds for all of them.
  \<^item> \<open>unicode_toLowerCase\<close> and \<open>unicode_nfkc\<close> are \<^verbatim>\<open>toLowerCase()\<close> and
    \<^verbatim>\<open>normalize('NFKC')\<close> on strings with a code unit outside ASCII;
  \<^item> \<open>url_parse\<close> is \<^verbatim>\<open>new URL(str)\<close>, \<open>None\<close> when it throws;
  \<^item> \<open>set_protocol\<close>, \<open>set_hostname\<close>, \<open>set_port\<close> are the setters of the URL object;
  \<^item> \<open>utf8_decode\<close> is the fatal \<^verbatim>\<open>TextDecoder\<close>, \<open>json_parse\<close> is \<^verbatim>\<open>JSON.parse\<close>,
    \<open>None\<close> when they throw.
\<close>

record platform =
  unicode_toLowerCase :: "jsstring \<Rightarrow> jsstring"
  unicode_nfkc :: "jsstring \<Rightarrow> jsstring"
  url_parse :: "jsstring \<Rightarrow> url option"
  set_protocol :: "url \<Rightarrow> jsstring \<Rightarrow> url"
  set_hostname :: "url \<Rightarrow> jsstring \<Rightarrow> url"
  set_port :: "url \<Rightarrow> jsstring \<Rightarrow> url"
  utf8_decode :: "8 word list \<Rightarrow> jsstring option"
  json_parse :: "jsstring \<Rightarrow> json option"

text \<open>
  On a string of ASCII code units \<^verbatim>\<open>toLowerCase()\<close> maps A to Z onto a to z and keeps
  the rest, and NFKC normalisation changes nothing.
\<close>

definition toLowerCase :: "platform \<Rightarrow> jsstring \<Rightarrow> jsstring" where
  "toLowerCase P s = (if list_all is_ascii s then map ascii_lower s else unicode_toLowerCase P s)"

definition nfkc :: "platform \<Rightarrow> jsstring \<Rightarrow> jsstring" where
  "nfkc P s = (if list_all is_ascii s then s else unicode_nfkc P s)"

text \<open>
  \<^verbatim>\<open>URL.prototype.toString\<close> of a URL with a host: scheme, \<^verbatim>\<open>//\<close>, credentials, host,
  port, path, query and fragment.
\<close>

definition url_toString :: "url \<Rightarrow> jsstring" where
  "url_toString u =
     protocol u @ js ''//'' @
     (if username u \<noteq> [] \<or> password u \<noteq> []
      then username u @ (if password u \<noteq> [] then js '':'' @ password u else []) @ js ''@''
      else []) @
     hostname u @ (if port u \<noteq> [] then js '':'' @ port u else []) @
     pathname u @ search u @ hash u"

section \<open>Regular expressions\<close>

text \<open>
  A pattern maps a string to the remainders left by every way of matching it at the start
  of the string, in the order in which the backtracking matcher tries them (a greedy
  quantifier tries the longest repetition first, an alternation its left branch first).
\<close>

type_synonym matcher = "jsstring \<Rightarrow> jsstring list"

definition re_lit :: "jsstring \<Rightarrow> matcher" where
  "re_lit w s = (if take (length w) s = w then [drop (length w) s] else [])"

definition re_cls :: "(16 word \<Rightarrow> bool) \<Rightarrow> matcher" where
  "re_cls p s = (case s of [] \<Rightarrow> [] | c # r \<Rightarrow> if p c then [r] else [])"

definition re_alt :: "matcher \<Rightarrow> matcher \<Rightarrow> matcher" where
  "re_alt p q s = p s @ q s"

definition re_seq :: "matcher \<Rightarrow> matcher \<Rightarrow> matcher" where
  "re_seq p q s = concat (map q (p s))"

text \<open>\<^verbatim>\<open>$\<close> without the \<^verbatim>\<open>m\<close> flag: the end of the input.\<close>

definition re_eos :: matcher where
  "re_eos s = (if s = [] then [Nil] else [])"

text \<open>\<^verbatim>\<open>p{lo,hi}\<close>, greedy.\<close>

fun re_rep :: "nat \<Rightarrow> nat \<Rightarrow> matcher \<Rightarrow> matcher" where
  "re_rep lo 0 p s = (if lo = 0 then [s] else [])"
| "re_rep lo (Suc hi) p s =
     concat (map (re_rep (lo - 1) hi p) (p s)) @ (if lo = 0 then [s] else [])"

text \<open>
  \<^verbatim>\<open>p*\<close> and \<^verbatim>\<open>p+\<close> for a pattern \<open>p\<close> that consumes at least one code unit per match
  (here always a character class), so that no more than \<open>length s\<close> repetitions fit.
\<close>

definition re_star :: "matcher \<Rightarrow> matcher" where
  "re_star p s = re_rep 0 (length s) p s"

definition re_plus :: "matcher \<Rightarrow> matcher" where
  "re_plus p s = re_rep 1 (length s) p s"

text \<open>
  The \<^verbatim>\<open>i\<close> flag without the \<^verbatim>\<open>u\<close> flag compares canonicalised code units. A code unit
  outside ASCII never canonicalises to an ASCII one, so against ASCII patterns (all patterns
  of this program) only the two cases of an ASCII letter are identified.
\<close>

definition re_lit_i :: "jsstring \<Rightarrow> matcher" where
  "re_lit_i w s =
     (if map ascii_upper (take (length w) s) = map ascii_upper w then [drop (length w) s] else [])"

definition re_cls_i :: "char_class \<Rightarrow> matcher" where
  "re_cls_i rs =
     re_cls (\<lambda>c. in_class rs c \<or> in_class rs (ascii_lower c) \<or> in_class rs (ascii_upper c))"

text \<open>
  \<^verbatim>\<open>re.test(s)\<close> for a pattern that begins with \<^verbatim>\<open>^\<close>, and for one that does not (the
  match is tried at every position).
\<close>

definition re_test :: "matcher \<Rightarrow> jsstring \<Rightarrow> bool" where
  "re_test r s = (r s \<noteq> [])"

definition re_search :: "matcher \<Rightarrow> jsstring \<Rightarrow> bool" where
  "re_search r s = list_ex (re_test r) (tails s)"

text \<open>
  \<^verbatim>\<open>s.match(/^(group)rest/)\<close>: the text captured by the group in the first successful
  match, \<open>None\<close> when there is no match.
\<close>

definition re_match_group :: "matcher \<Rightarrow> matcher \<Rightarrow> jsstring \<Rightarrow> jsstring option" where
  "re_match_group g rest s =
     (case find (\<lambda>r. rest r \<noteq> []) (g s) of
        None \<Rightarrow> None
      | Some r \<Rightarrow> Some (take (length s - length r) s))"

definition DIGIT :: char_class where
  "DIGIT = [(cu CHR ''0'', cu CHR ''9'')]"

section \<open>Admin key authentication\<close>

text \<open>
  \<^verbatim>\<open>new TextEncoder().encode(s)\<close>: the string is read as code points, a surrogate pair
  giving one code point and every unpaired surrogate the replacement character U+FFFD, and
  each code point is written in UTF-8.
\<close>

definition is_high_surrogate :: "16 word \<Rightarrow> bool" where
  "is_high_surrogate c = (0xD800 \<le> c \<and> c \<le> 0xDBFF)"

definition is_low_surrogate :: "16 word \<Rightarrow> bool" where
  "is_low_surrogate c = (0xDC00 \<le> c \<and> c \<le> 0xDFFF)"

definition scalar_of_unit :: "16 word \<Rightarrow> nat" where
  "scalar_of_unit c = (if is_high_surrogate c \<or> is_low_surrogate c then 0xFFFD else unat c)"

fun code_points :: "jsstring \<Rightarrow> nat list" where
  "code_points [] = []"
| "code_points [c] = [scalar_of_unit c]"
| "code_points (c # d # r) =
     (if is_high_surrogate c \<and> is_low_surrogate d
      then (0x10000 + (unat c - 0xD800) * 0x400 + (unat d - 0xDC00)) # code_points r
      else scalar_of_unit c # code_points (d # r))"

definition utf8_bytes :: "nat \<Rightarrow> 8 word list" where
  "utf8_bytes n =
     (if n < 0x80 then [of_nat n]
      else if n < 0x800 then [of_nat (0xC0 + n div 0x40), of_nat (0x80 + n mod 0x40)]
      else if n < 0x10000 then
        [of_nat (0xE0 + n div 0x1000), of_nat (0x80 + n div 0x40 mod 0x40),
         of_nat (0x80 + n mod 0x40)]
      else
        [of_nat (0xF0 + n div 0x40000), of_nat (0x80 + n div 0x1000 mod 0x40),
         of_nat (0x80 + n div 0x40 mod 0x40), of_nat (0x80 + n mod 0x40)])"

definition encode :: "jsstring \<Rightarrow> 8 word list" where
  "encode s = concat (map utf8_bytes (code_points s))"

text \<open>
  \<^verbatim>\<open>bb[i % bb.length] ?? 0\<close>: for an empty \<open>bb\<close> the index is NaN, the read gives
  \<^verbatim>\<open>undefined\<close>, and the operand is 0.
\<close>

definition wrapped_read :: "8 word list \<Rightarrow> nat \<Rightarrow> 8 word" where
  "wrapped_read bb i = (if length bb = 0 then 0 else bb ! (i mod length bb))"

text \<open>
  \<^verbatim>\<open>function timingSafeEqual(a, b) {
    const enc = new TextEncoder();
    const ab = enc.encode(a);
    const bb = enc.encode(b);
    if (ab.length !== bb.length) {
      let diff = 0;
      for (let i = 0; i < ab.length; i++) diff |= ab[i] ^ (bb[i % bb.length] ?? 0);
      return false;
    }
    let diff = 0;
    for (let i = 0; i < ab.length; i++) diff |= ab[i] ^ bb[i];
    return diff === 0;
  }\<close>
  The bitwise operators work on 32-bit integers. No statement of the function can throw:
  every array read is in range or yields \<^verbatim>\<open>undefined\<close>, so the model has no error result.
\<close>

definition timingSafeEqual :: "jsstring \<Rightarrow> jsstring \<Rightarrow> bool" where
  "timingSafeEqual a b =
     (let ab = encode a; bb = encode b in
      if length ab \<noteq> length bb then
        (let diff = fold (\<lambda>i (diff :: 32 word). diff OR (ucast (ab ! i) XOR ucast (wrapped_read bb i)))
                      [0 ..< length ab] 0
         in False)
      else
        (let diff = fold (\<lambda>i (diff :: 32 word). diff OR (ucast (ab ! i) XOR ucast (bb ! i)))
                      [0 ..< length ab] 0
         in diff = 0))"

text \<open>
  \<^verbatim>\<open>export function checkAdminAuth(request, env) {
    const adminKey = env.ADMIN_KEY;
    if (!adminKey || adminKey.length < 16) return false;
    const auth = (request.headers.get('Authorization') || '').trim();
    if (!auth.startsWith('Bearer ')) return false;
    const token = auth.slice(7);
    return timingSafeEqual(token, adminKey);
  }\<close>
  The arguments are the configured key (\<open>None\<close> when the variable is not set) and the
  Authorization header (\<open>None\<close> when the request has none). The result carries, next to
  the verdict, the list of calls made to the comparator.
\<close>

definition checkAdminAuth ::
  "jsstring option \<Rightarrow> jsstring option \<Rightarrow> bool \<times> (jsstring \<times> jsstring) list" where
  "checkAdminAuth authorization ADMIN_KEY =
     (case ADMIN_KEY of
        None \<Rightarrow> (False, [])
      | Some adminKey \<Rightarrow>
          if adminKey = [] \<or> length adminKey < 16 then (False, [])
          else
            let auth = trim (case authorization of None \<Rightarrow> [] | Some v \<Rightarrow> v) in
            if \<not> startsWith auth (js ''Bearer '') then (False, [])
            else
              let token = drop 7 auth in
              (timingSafeEqual token adminKey, [(token, adminKey)]))"

section \<open>URL validation\<close>

definition BLOCKED_HOSTNAMES :: "jsstring list" where
  "BLOCKED_HOSTNAMES =
     [js ''localhost'', js ''metadata.google.internal'', js ''metadata.goog'',
      js ''instance-data'', js ''computemetadata'']"

text \<open>
  \<^verbatim>\<open>const BLOCKED_IPV4 = [
    /^0\./, /^127\./, /^10\./, /^172\.(1[6-9]|2\d|3[01])\./, /^192\.168\./, /^169\.254\./,
    /^100\.(6[4-9]|[7-9]\d|1[01]\d|12[0-7])\./, /^198\.51\.100\./, /^203\.0\.113\./,
    /^240\./, /^255\.255\.255\.255$/ ];\<close>
\<close>

definition BLOCKED_IPV4 :: "matcher list" where
  "BLOCKED_IPV4 =
     [re_lit (js ''0.''),
      re_lit (js ''127.''),
      re_lit (js ''10.''),
      re_seq (re_lit (js ''172.''))
        (re_seq
          (re_alt (re_seq (re_lit (js ''1'')) (re_cls (in_class [(cu CHR ''6'', cu CHR ''9'')])))
            (re_alt (re_seq (re_lit (js ''2'')) (re_cls (in_class DIGIT)))
              (re_seq (re_lit (js ''3'')) (re_cls (in_class [(cu CHR ''0'', cu CHR ''1'')])))))
          (re_lit (js ''.''))),
      re_lit (js ''192.168.''),
      re_lit (js ''169.254.''),
      re_seq (re_lit (js ''100.''))
        (re_seq
          (re_alt (re_seq (re_lit (js ''6'')) (re_cls (in_class [(cu CHR ''4'', cu CHR ''9'')])))
            (re_alt (re_seq (re_cls (in_class [(cu CHR ''7'', cu CHR ''9'')])) (re_cls (in_class DIGIT)))
              (re_alt
                (re_seq (re_lit (js ''1''))
                  (re_seq (re_cls (in_class [(cu CHR ''0'', cu CHR ''1'')])) (re_cls (in_class DIGIT))))
                (re_seq (re_lit (js ''12'')) (re_cls (in_class [(cu CHR ''0'', cu CHR ''7'')]))))))
          (re_lit (js ''.''))),
      re_lit (js ''198.51.100.''),
      re_lit (js ''203.0.113.''),
      re_lit (js ''240.''),
      re_seq (re_lit (js ''255.255.255.255'')) re_eos]"

text \<open>
  \<^verbatim>\<open>const BLOCKED_IPV6 = [ /^::1$/i, /^::/, /^fc/i, /^fd/i, /^fe80/i, /^ff/i ];\<close>
\<close>

definition BLOCKED_IPV6 :: "matcher list" where
  "BLOCKED_IPV6 =
     [re_seq (re_lit_i (js ''::1'')) re_eos,
      re_lit (js ''::''),
      re_lit_i (js ''fc''),
      re_lit_i (js ''fd''),
      re_lit_i (js ''fe80''),
      re_lit_i (js ''ff'')]"

text \<open>\<^verbatim>\<open>/\.(local|internal|localhost|lan|corp|intranet)$/i\<close>\<close>

definition INTERNAL_SUFFIX_RE :: matcher where
  "INTERNAL_SUFFIX_RE =
     re_seq (re_lit_i (js ''.''))
       (re_seq
         (re_alt (re_lit_i (js ''local''))
           (re_alt (re_lit_i (js ''internal''))
             (re_alt (re_lit_i (js ''localhost''))
               (re_alt (re_lit_i (js ''lan''))
                 (re_alt (re_lit_i (js ''corp'')) (re_lit_i (js ''intranet'')))))))
         re_eos)"

text \<open>\<^verbatim>\<open>/^\d{1,3}(\.\d{1,3}){3}$/\<close>\<close>

definition IPV4_RE :: matcher where
  "IPV4_RE =
     re_seq (re_rep 1 3 (re_cls (in_class DIGIT)))
       (re_seq (re_rep 3 3 (re_seq (re_lit (js ''.'')) (re_rep 1 3 (re_cls (in_class DIGIT)))))
         re_eos)"

text \<open>
  \<^verbatim>\<open>function isBlockedHostname(hostname) {
    const h = hostname.toLowerCase();
    if (BLOCKED_HOSTNAMES.has(h)) return true;
    if (/\.(local|internal|localhost|lan|corp|intranet)$/i.test(h)) return true;
    if (/^\d{1,3}(\.\d{1,3}){3}$/.test(h)) {
      return BLOCKED_IPV4.some(re => re.test(h));
    }
    if (h.includes(':')) {
      return BLOCKED_IPV6.some(re => re.test(h));
    }
    return false;
  }\<close>
\<close>

definition isBlockedHostname :: "platform \<Rightarrow> jsstring \<Rightarrow> bool" where
  "isBlockedHostname P hostname' =
     (let h = toLowerCase P hostname' in
      if h \<in> set BLOCKED_HOSTNAMES then True
      else if re_search INTERNAL_SUFFIX_RE h then True
      else if re_test IPV4_RE h then list_ex (\<lambda>re. re_test re h) BLOCKED_IPV4
      else if includes_sub h (js '':'') then list_ex (\<lambda>re. re_test re h) BLOCKED_IPV6
      else False)"

datatype url_error =
    UrlNotString
  | UrlEmpty
  | UrlTooLong
  | UrlMissingScheme
  | UrlSchemeNotAllowed jsstring
  | UrlUnparseable
  | UrlOnlyHttp
  | UrlCredentials
  | UrlNoHostname
  | UrlNotDomain
  | UrlBlockedAddress

text \<open>\<^verbatim>\<open>/^([a-zA-Z][a-zA-Z0-9+\-.]*):\/\//i\<close>: the group, and what follows it.\<close>

definition SCHEME_GROUP :: matcher where
  "SCHEME_GROUP =
     re_seq (re_cls_i [(cu CHR ''a'', cu CHR ''z''), (cu CHR ''A'', cu CHR ''Z'')])
       (re_star (re_cls_i [(cu CHR ''a'', cu CHR ''z''), (cu CHR ''A'', cu CHR ''Z''),
          (cu CHR ''0'', cu CHR ''9''), (cu CHR ''+'', cu CHR ''+''), (cu CHR ''-'', cu CHR ''-''),
          (cu CHR ''.'', cu CHR ''.'')]))"

definition schemeMatch :: "jsstring \<Rightarrow> jsstring option" where
  "schemeMatch str = re_match_group SCHEME_GROUP (re_lit_i (js ''://'')) str"

text \<open>
  \<^verbatim>\<open>validateUrl(raw)\<close>, lines 163 to 242 of the security module, branch by branch. The
  argument is any JSON value, since the callers pass a field of the request body.
\<close>

definition validateUrl :: "platform \<Rightarrow> json \<Rightarrow> url_error + jsstring" where
  "validateUrl P raw =
     (case raw of
        JStr raw_str \<Rightarrow>
          (let str = nfkc P (trim (stripControlChars raw_str)) in
           if length str = 0 then Inl UrlEmpty
           else if length str > 2048 then Inl UrlTooLong
           else
             (case schemeMatch str of
                None \<Rightarrow> Inl UrlMissingScheme
              | Some group1 \<Rightarrow>
                  (let scheme = toLowerCase P group1 in
                   if scheme \<noteq> js ''http'' \<and> scheme \<noteq> js ''https''
                   then Inl (UrlSchemeNotAllowed scheme)
                   else
                     (case url_parse P str of
                        None \<Rightarrow> Inl UrlUnparseable
                      | Some parsed \<Rightarrow>
                          if protocol parsed \<noteq> js ''http:'' \<and> protocol parsed \<noteq> js ''https:''
                          then Inl UrlOnlyHttp
                          else if username parsed \<noteq> [] \<or> password parsed \<noteq> []
                          then Inl UrlCredentials
                          else if hostname parsed = [] then Inl UrlNoHostname
                          else
                            (let isRawIp = (re_test IPV4_RE (hostname parsed) \<or>
                                            includes_sub (hostname parsed) (js '':'')) in
                             if \<not> isRawIp \<and> \<not> includes_sub (hostname parsed) (js ''.'')
                             then Inl UrlNotDomain
                             else if isBlockedHostname P (hostname parsed)
                             then Inl UrlBlockedAddress
                             else
                               (let p1 = set_protocol P parsed (toLowerCase P (protocol parsed));
                                    p2 = set_hostname P p1 (toLowerCase P (hostname p1));
                                    p3 = (if (protocol p2 = js ''http:'' \<and> port p2 = js ''80'') \<or>
                                             (protocol p2 = js ''https:'' \<and> port p2 = js ''443'')
                                          then set_port P p2 [] else p2)
                                in Inr (url_toString p3)))))))
      | _ \<Rightarrow> Inl UrlNotString)"

section \<open>Slug validation\<close>

definition RESERVED_SLUGS :: "jsstring list" where
  "RESERVED_SLUGS =
     [js ''api'', js ''admin'', js ''assets'', js ''static'', js ''public'', js ''cdn'',
      js ''_headers'', js ''_redirects'', js ''_routes'', js ''favicon'', js ''robots'',
      js ''sitemap'', js ''index'', js ''health'', js ''ping'', js ''status'',
      js ''login'', js ''logout'', js ''signup'', js ''register'', js ''dashboard'',
      js ''wp-admin'', js ''wp-login'', js ''.env'', js ''.git'']"

text \<open>\<^verbatim>\<open>const SLUG_RE = /^[a-z0-9][a-z0-9\-_]{1,31}$/;\<close>\<close>

definition SLUG_RE :: matcher where
  "SLUG_RE =
     re_seq (re_cls (in_class [(cu CHR ''a'', cu CHR ''z''), (cu CHR ''0'', cu CHR ''9'')]))
       (re_seq
         (re_rep 1 31
           (re_cls (in_class [(cu CHR ''a'', cu CHR ''z''), (cu CHR ''0'', cu CHR ''9''),
              (cu CHR ''-'', cu CHR ''-''), (cu CHR ''_'', cu CHR ''_'')])))
         re_eos)"

datatype slug_error =
    SlugNotString
  | SlugTooShort
  | SlugTooLong
  | SlugBadPattern
  | SlugReserved jsstring
  | SlugPathSeparators

text \<open>
  \<^verbatim>\<open>export function validateCustomSlug(raw) {
    if (typeof raw !== 'string') return { ok: false, ... };
    const slug = stripControlChars(raw).trim().toLowerCase().normalize('NFKC');
    if (slug.length < 2) return { ok: false, ... };
    if (slug.length > 32) return { ok: false, ... };
    if (!SLUG_RE.test(slug)) return { ok: false, ... };
    if (RESERVED_SLUGS.has(slug)) return { ok: false, ... };
    if (slug.includes('..') || slug.includes('/') || slug.includes('\\')) return { ok: false, ... };
    return { ok: true, slug };
  }\<close>
\<close>

definition validateCustomSlug :: "platform \<Rightarrow> json \<Rightarrow> slug_error + jsstring" where
  "validateCustomSlug P raw =
     (case raw of
        JStr raw_str \<Rightarrow>
          (let slug = nfkc P (toLowerCase P (trim (stripControlChars raw_str))) in
           if length slug < 2 then Inl SlugTooShort
           else if length slug > 32 then Inl SlugTooLong
           else if \<not> re_test SLUG_RE slug then Inl SlugBadPattern
           else if slug \<in> set RESERVED_SLUGS then Inl (SlugReserved slug)
           else if includes_sub slug (js ''..'') \<or> includes_sub slug (js ''/'') \<or>
                   includes_sub slug [0x5C]
           then Inl SlugPathSeparators
           else Inr slug)
      | _ \<Rightarrow> Inl SlugNotString)"

datatype lookup_error =
    LookupNotString
  | LookupBadLength
  | LookupInvalidChars
  | LookupTraversal

text \<open>\<^verbatim>\<open>/^[a-z0-9\-_]+$/\<close>\<close>

definition LOOKUP_RE :: matcher where
  "LOOKUP_RE =
     re_seq
       (re_plus
         (re_cls (in_class [(cu CHR ''a'', cu CHR ''z''), (cu CHR ''0'', cu CHR ''9''),
            (cu CHR ''-'', cu CHR ''-''), (cu CHR ''_'', cu CHR ''_'')])))
       re_eos"

text \<open>
  \<^verbatim>\<open>export function validateLookupSlug(raw) {
    if (typeof raw !== 'string') return { ok: false, ... };
    const slug = stripControlChars(raw).trim().toLowerCase();
    if (slug.length < 1 || slug.length > 64) return { ok: false, ... };
    if (!/^[a-z0-9\-_]+$/.test(slug)) return { ok: false, ... };
    if (slug.includes('..')) return { ok: false, ... };
    return { ok: true, slug };
  }\<close>
\<close>

definition validateLookupSlug :: "platform \<Rightarrow> json \<Rightarrow> lookup_error + jsstring" where
  "validateLookupSlug P raw =
     (case raw of
        JStr raw_str \<Rightarrow>
          (let slug = toLowerCase P (trim (stripControlChars raw_str)) in
           if length slug < 1 \<or> length slug > 64 then Inl LookupBadLength
           else if \<not> re_test LOOKUP_RE slug then Inl LookupInvalidChars
           else if includes_sub slug (js ''..'') then Inl LookupTraversal
           else Inr slug)
      | _ \<Rightarrow> Inl LookupNotString)"

text \<open>
  \<^verbatim>\<open>const CHARS = 'abcdefghijklmnopqrstuvwxyz0123456789';
  function generateCode(length = SHORT_LENGTH) {
    const array = new Uint8Array(length);
    crypto.getRandomValues(array);
    return Array.from(array, b => CHARS[b % CHARS.length]).join('');
  }\<close>
  The argument of the model is the array after \<^verbatim>\<open>getRandomValues\<close> has filled it; the
  shortener asks for 4, 5 or 6 bytes.
\<close>

definition CHARS :: jsstring where
  "CHARS = js ''abcdefghijklmnopqrstuvwxyz0123456789''"

definition generateCode :: "8 word list \<Rightarrow> jsstring" where
  "generateCode array = map (\<lambda>b. CHARS ! (unat b mod length CHARS)) array"

section \<open>Bounded JSON ingestion\<close>

definition MAX_BODY_BYTES :: nat where
  "MAX_BODY_BYTES = 8192"

text \<open>
  \<^verbatim>\<open>parseInt(s, 10)\<close>: leading white space is skipped, then an optional sign, then the
  longest run of decimal digits; \<open>None\<close> is NaN (no digit). The value is kept as an exact
  integer: the program only compares it with 8192, and rounding to a double is monotone and
  exact up to \<open>2 ^ 53\<close>.
\<close>

definition digit_value :: "16 word \<Rightarrow> int" where
  "digit_value c = int (unat c) - 48"

definition parseInt10 :: "jsstring \<Rightarrow> int option" where
  "parseInt10 s =
     (let t = trimStart s;
          negative = (case t of [] \<Rightarrow> False | c # _ \<Rightarrow> c = cu CHR ''-'');
          signed = (case t of [] \<Rightarrow> False | c # _ \<Rightarrow> c = cu CHR ''+'' \<or> c = cu CHR ''-'');
          digits = takeWhile (in_class DIGIT) (if signed then tl t else t)
      in if digits = [] then None
         else
           (let n = foldl (\<lambda>acc c. 10 * acc + digit_value c) 0 digits
            in Some (if negative then - n else n)))"

text \<open>
  What \<^verbatim>\<open>reader.read()\<close> yields, call after call: a chunk of bytes, or an exception. After
  the last element of the list the stream reports \<^verbatim>\<open>done\<close>.
\<close>

datatype read_event = Chunk "8 word list" | ReadThrows

text \<open>
  What the handler did to the body stream: how many chunks \<^verbatim>\<open>read()\<close> delivered to it,
  how many bytes they held, and whether it cancelled the reader.
\<close>

record body_io =
  chunks_read :: nat
  bytes_read :: nat
  cancelled :: bool

datatype read_outcome =
    ReadAll "8 word list list"
  | ReadTooLarge
  | ReadFailed

text \<open>
  \<^verbatim>\<open>while (true) {
    const { done, value } = await reader.read();
    if (done) break;
    total += value.byteLength;
    if (total > MAX_BODY_BYTES) { reader.cancel(); return { ok: false, ... }; }
    chunks.push(value);
  }\<close>
\<close>

fun read_loop ::
  "read_event list \<Rightarrow> nat \<Rightarrow> 8 word list list \<Rightarrow> body_io \<Rightarrow> read_outcome \<times> body_io" where
  "read_loop [] total_n chunks io = (ReadAll chunks, io)"
| "read_loop (ReadThrows # stream) total_n chunks io = (ReadFailed, io)"
| "read_loop (Chunk v # stream) total_n chunks io =
     (let io' = io\<lparr>chunks_read := chunks_read io + 1, bytes_read := bytes_read io + length v\<rparr>;
          total_n' = total_n + length v
      in if total_n' > MAX_BODY_BYTES then (ReadTooLarge, io'\<lparr>cancelled := True\<rparr>)
         else read_loop stream total_n' (chunks @ [v]) io')"

record request =
  content_type :: "jsstring option"
  content_length :: "jsstring option"
  body :: "read_event list option"

datatype body_error =
    BodyBadContentType
  | BodyTooLarge
  | BodyUnreadable
  | BodyInvalidJson
  | BodyNotObject

definition no_io :: body_io where
  "no_io = \<lparr>chunks_read = 0, bytes_read = 0, cancelled = False\<rparr>"

text \<open>
  \<^verbatim>\<open>readJsonBody(request)\<close>, lines 325 to 374 of the security module. A header that is
  absent is \<open>None\<close>; a request without a body has \<open>body = None\<close>, and \<^verbatim>\<open>getReader\<close> on it
  throws inside the \<^verbatim>\<open>try\<close> block. The result is paired with the record of what was
  read.
\<close>

definition readJsonBody :: "platform \<Rightarrow> request \<Rightarrow> (body_error + json) \<times> body_io" where
  "readJsonBody P req =
     (let ct = toLowerCase P (trim (takeWhile (\<lambda>c. c \<noteq> cu CHR '';'')
                 (case content_type req of None \<Rightarrow> [] | Some v \<Rightarrow> v)))
      in if ct \<noteq> js ''application/json'' then (Inl BodyBadContentType, no_io)
      else
        (let contentLength =
               parseInt10 (case content_length req of
                             None \<Rightarrow> js ''0''
                           | Some v \<Rightarrow> if v = [] then js ''0'' else v)
         in if (case contentLength of None \<Rightarrow> False | Some n \<Rightarrow> n > int MAX_BODY_BYTES)
            then (Inl BodyTooLarge, no_io)
            else
              (case body req of
                 None \<Rightarrow> (Inl BodyUnreadable, no_io)
               | Some stream \<Rightarrow>
                   (case read_loop stream 0 [] no_io of
                      (ReadTooLarge, io) \<Rightarrow> (Inl BodyTooLarge, io)
                    | (ReadFailed, io) \<Rightarrow> (Inl BodyUnreadable, io)
                    | (ReadAll chunks, io) \<Rightarrow>
                        (case utf8_decode P (concat chunks) of
                           None \<Rightarrow> (Inl BodyUnreadable, io)
                         | Some text \<Rightarrow>
                             (case json_parse P text of
                                None \<Rightarrow> (Inl BodyInvalidJson, io)
                              | Some (JObj members) \<Rightarrow> (Inr (JObj members), io)
                              | Some _ \<Rightarrow> (Inl BodyNotObject, io)))))))"

section \<open>A sample platform\<close>

text \<open>
  The platform functions at the inputs of the examples below, as the Unicode tables and the
  URL Standard define them there:
  \<^item> NFKC normalisation maps the fullwidth forms U+FF01 to U+FF5E onto the ASCII characters
    U+0021 to U+007E;
  \<^item> \<^verbatim>\<open>toLowerCase()\<close> maps the fullwidth capitals U+FF21 to U+FF3A onto the fullwidth
    small letters;
  \<^item> the URL parser percent-encodes a space in a path and serialises an IPv4 host in
    dotted-decimal form; assigning to a component the value it already has changes nothing.
  On other inputs (other characters outside ASCII, other URLs) the sample platform is
  arbitrary, and so are its byte decoder and its JSON parser, which the examples never
  reach; only the closed examples use it.
\<close>

definition sample_nfkc :: "jsstring \<Rightarrow> jsstring" where
  "sample_nfkc s = map (\<lambda>c. if 0xFF01 \<le> c \<and> c \<le> 0xFF5E then c - 0xFEE0 else c) s"

definition sample_toLowerCase :: "jsstring \<Rightarrow> jsstring" where
  "sample_toLowerCase s =
     map (\<lambda>c. if 0xFF21 \<le> c \<and> c \<le> 0xFF3A then c + 0x20 else ascii_lower c) s"

definition http_url :: "string \<Rightarrow> string \<Rightarrow> jsstring \<Rightarrow> url" where
  "http_url scheme host path =
     \<lparr>protocol = js scheme @ js '':'', username = [], password = [], hostname = js host,
      port = [], pathname = path, search = [], hash = []\<rparr>"

definition sample_url_parse :: "jsstring \<Rightarrow> url option" where
  "sample_url_parse s =
     (if s = js ''https://example.com/'' then Some (http_url ''https'' ''example.com'' (js ''/''))
      else if s = js ''https://Example.COM:443/path'' \<or> s = js ''https://example.com/path''
      then Some (http_url ''https'' ''example.com'' (js ''/path''))
      else if s = js ''https://example.com/'' @ replicate 700 (cu CHR '' '') @ js ''a''
      then Some (http_url ''https'' ''example.com''
                   (js ''/'' @ concat (replicate 700 (js ''%20'')) @ js ''a''))
      else if s = js ''http://10.0.0.5/'' then Some (http_url ''http'' ''10.0.0.5'' (js ''/''))
      else if s = js ''http://241.0.0.1/'' then Some (http_url ''http'' ''241.0.0.1'' (js ''/''))
      else None)"

definition sample_platform :: platform where
  "sample_platform =
     \<lparr>unicode_toLowerCase = sample_toLowerCase,
      unicode_nfkc = sample_nfkc,
      url_parse = sample_url_parse,
      set_protocol = (\<lambda>u v. u\<lparr>protocol := v\<rparr>),
      set_hostname = (\<lambda>u v. u\<lparr>hostname := v\<rparr>),
      set_port = (\<lambda>u v. u\<lparr>port := v\<rparr>),
      utf8_decode = (\<lambda>bs. None),
      json_parse = (\<lambda>s. None)\<rparr>"

section \<open>Notions used in the statements\<close>

text \<open>
  The slug pattern in the words of the specification: a first character that is a lower-case
  letter or a digit, followed by 1 to 31 characters that are lower-case letters, digits,
  hyphens or underscores.
\<close>

definition is_lower_alnum :: "16 word \<Rightarrow> bool" where
  "is_lower_alnum c = ((cu CHR ''a'' \<le> c \<and> c \<le> cu CHR ''z'') \<or> (cu CHR ''0'' \<le> c \<and> c \<le> cu CHR ''9''))"

definition is_slug_char :: "16 word \<Rightarrow> bool" where
  "is_slug_char c = (is_lower_alnum c \<or> c = cu CHR ''-'' \<or> c = cu CHR ''_'')"

definition slug_pattern :: "jsstring \<Rightarrow> bool" where
  "slug_pattern s =
     (case s of
        [] \<Rightarrow> False
      | c # w \<Rightarrow> is_lower_alnum c \<and> 1 \<le> length w \<and> length w \<le> 31 \<and> list_all is_slug_char w)"

text \<open>
  A well-formed string: every surrogate code unit is part of a pair of a high surrogate
  followed by a low surrogate.
\<close>

fun well_formed :: "jsstring \<Rightarrow> bool" where
  "well_formed [] = True"
| "well_formed [c] = (\<not> is_high_surrogate c \<and> \<not> is_low_surrogate c)"
| "well_formed (c # d # r) =
     (if is_high_surrogate c then is_low_surrogate d \<and> well_formed r
      else \<not> is_low_surrogate c \<and> well_formed (d # r))"

text \<open>The bytes of \<open>utf8_bytes\<close> and the code point of a surrogate pair, as numbers.\<close>

definition utf8_nat :: "nat \<Rightarrow> nat list" where
  "utf8_nat n =
     (if n < 0x80 then [n]
      else if n < 0x800 then [0xC0 + n div 0x40, 0x80 + n mod 0x40]
      else if n < 0x10000 then [0xE0 + n div 0x1000, 0x80 + n div 0x40 mod 0x40, 0x80 + n mod 0x40]
      else [0xF0 + n div 0x40000, 0x80 + n div 0x1000 mod 0x40, 0x80 + n div 0x40 mod 0x40,
            0x80 + n mod 0x40])"

definition pair_value :: "16 word \<Rightarrow> 16 word \<Rightarrow> nat" where
  "pair_value c d = 0x10000 + (unat c - 0xD800) * 0x400 + (unat d - 0xDC00)"

text \<open>
  The number of bytes held by a list of chunks, and the content-type test of
  \<open>readJsonBody\<close>: the header value up to the first semicolon, trimmed and lower-cased, is
  \<^verbatim>\<open>application/json\<close>.
\<close>

definition total_bytes :: "8 word list list \<Rightarrow> nat" where
  "total_bytes cs = sum_list (map length cs)"

definition content_type_is_json :: "platform \<Rightarrow> request \<Rightarrow> bool" where
  "content_type_is_json P req =
     (toLowerCase P (trim (takeWhile (\<lambda>c. c \<noteq> cu CHR '';'')
        (case content_type req of None \<Rightarrow> [] | Some v \<Rightarrow> v))) = js ''application/json'')"

text \<open>
  The checks that \<open>validateUrl\<close> makes on a parsed URL, the normalisation it applies before
  serialising, and the behaviour of a standard-conforming URL object on a parsed URL:
  assigning to a component the value it already has changes nothing, the host is in lower
  case, a default port is never reported, the serialisation holds nothing that the
  sanitizer, \<open>trim\<close> or NFKC normalisation would change, and parsing it gives the same URL
  again.
\<close>

definition passes_checks :: "platform \<Rightarrow> url \<Rightarrow> bool" where
  "passes_checks P parsed =
     ((protocol parsed = js ''http:'' \<or> protocol parsed = js ''https:'') \<and>
      username parsed = [] \<and> password parsed = [] \<and> hostname parsed \<noteq> [] \<and>
      (re_test IPV4_RE (hostname parsed) \<or> includes_sub (hostname parsed) (js '':'') \<or>
       includes_sub (hostname parsed) (js ''.'')) \<and>
      \<not> isBlockedHostname P (hostname parsed))"

definition normalise_url :: "platform \<Rightarrow> url \<Rightarrow> url" where
  "normalise_url P parsed =
     (let p1 = set_protocol P parsed (toLowerCase P (protocol parsed));
          p2 = set_hostname P p1 (toLowerCase P (hostname p1))
      in if (protocol p2 = js ''http:'' \<and> port p2 = js ''80'') \<or>
            (protocol p2 = js ''https:'' \<and> port p2 = js ''443'')
         then set_port P p2 [] else p2)"

definition url_conforming :: "platform \<Rightarrow> url \<Rightarrow> bool" where
  "url_conforming P parsed =
     (set_protocol P parsed (protocol parsed) = parsed \<and>
      set_hostname P parsed (hostname parsed) = parsed \<and>
      toLowerCase P (hostname parsed) = hostname parsed \<and>
      \<not> (protocol parsed = js ''http:'' \<and> port parsed = js ''80'') \<and>
      \<not> (protocol parsed = js ''https:'' \<and> port parsed = js ''443'') \<and>
      nfkc P (trim (stripControlChars (url_toString parsed))) = url_toString parsed \<and>
      url_parse P (url_toString parsed) = Some parsed)"

text \<open>
  An IPv4 address as the URL parser serialises it: four numbers below 256 in decimal without
  leading zeros, separated by dots. The ranges are those listed for the address classifier
  in the specification.
\<close>

definition digit_char :: "nat \<Rightarrow> 16 word" where
  "digit_char k = cu CHR ''0'' + of_nat k"

definition decimal :: "nat \<Rightarrow> jsstring" where
  "decimal n =
     (if n < 10 then [digit_char n]
      else if n < 100 then [digit_char (n div 10), digit_char (n mod 10)]
      else [digit_char (n div 100), digit_char (n div 10 mod 10), digit_char (n mod 10)])"

definition dotted_quad :: "nat \<Rightarrow> nat \<Rightarrow> nat \<Rightarrow> nat \<Rightarrow> jsstring" where
  "dotted_quad a b c d =
     decimal a @ js ''.'' @ decimal b @ js ''.'' @ decimal c @ js ''.'' @ decimal d"

definition in_listed_range :: "nat \<Rightarrow> nat \<Rightarrow> nat \<Rightarrow> nat \<Rightarrow> bool" where
  "in_listed_range a b c d =
     (a = 0 \<or> a = 127 \<or> a = 10 \<or> (a = 172 \<and> 16 \<le> b \<and> b \<le> 31) \<or> (a = 192 \<and> b = 168) \<or>
      (a = 169 \<and> b = 254) \<or> (a = 100 \<and> 64 \<le> b \<and> b \<le> 127) \<or>
      (a = 198 \<and> b = 51 \<and> c = 100) \<or> (a = 203 \<and> b = 0 \<and> c = 113) \<or> 240 \<le> a)"

text \<open>
  An input is accepted up to the address check when every test that \<open>validateUrl\<close> makes
  before calling the address classifier passes; \<open>parsed\<close> is the URL the parser returned.
\<close>

definition reaches_address_check :: "platform \<Rightarrow> jsstring \<Rightarrow> url \<Rightarrow> bool" where
  "reaches_address_check P s parsed =
     (let str = nfkc P (trim (stripControlChars s)) in
      str \<noteq> [] \<and> length str \<le> 2048 \<and>
      (\<exists>g. schemeMatch str = Some g \<and> (toLowerCase P g = js ''http'' \<or> toLowerCase P g = js ''https'')) \<and>
      url_parse P str = Some parsed \<and>
      (protocol parsed = js ''http:'' \<or> protocol parsed = js ''https:'') \<and>
      username parsed = [] \<and> password parsed = [] \<and> hostname parsed \<noteq> [] \<and>
      (re_test IPV4_RE (hostname parsed) \<or> includes_sub (hostname parsed) (js '':'') \<or>
       includes_sub (hostname parsed) (js ''.'')))"

section \<open>Properties of the text sanitizer\<close>

lemma remove_class_filter: "remove_class rs s = filter (\<lambda>c. \<not> in_class rs c) s"
  by (induction s) simp_all

lemma word16_between_200B_200D:
  "(0x200B \<le> c \<and> c \<le> 0x200D) = (c = 0x200B \<or> c = 0x200C \<or> c = (0x200D :: 16 word))"
proof -
  have "(0x200B \<le> unat c \<and> unat c \<le> 0x200D) =
        (unat c = 0x200B \<or> unat c = 0x200C \<or> unat c = 0x200D)"
    by arith
  then show ?thesis
    by (simp add: word_le_nat_alt word_unat_eq_iff)
qed

lemma word16_between_202A_202E:
  "(0x202A \<le> c \<and> c \<le> 0x202E) =
   (c = 0x202A \<or> c = 0x202B \<or> c = 0x202C \<or> c = 0x202D \<or> c = (0x202E :: 16 word))"
proof -
  have "(0x202A \<le> unat c \<and> unat c \<le> 0x202E) =
        (unat c = 0x202A \<or> unat c = 0x202B \<or> unat c = 0x202C \<or> unat c = 0x202D \<or>
         unat c = 0x202E)"
    by arith
  then show ?thesis
    by (simp add: word_le_nat_alt word_unat_eq_iff)
qed

lemma in_CONTROL_CLASS: "in_class CONTROL_CLASS c = sanitizer_removes c"
proof -
  have "in_class CONTROL_CLASS c =
        (c \<le> 0x1F \<or> c = 0x7F \<or> (0x200B \<le> c \<and> c \<le> 0x200D) \<or> c = 0xFEFF \<or>
         (0x202A \<le> c \<and> c \<le> 0x202E))"
    by (auto simp: in_class_def CONTROL_CLASS_def)
  then show ?thesis
    unfolding word16_between_200B_200D word16_between_202A_202E
    by (simp add: sanitizer_removes_def)
qed

lemma stripControlChars_filter:
  "stripControlChars s = filter (\<lambda>c. \<not> sanitizer_removes c) s"
  by (simp add: stripControlChars_def remove_class_filter in_CONTROL_CLASS)

lemma sanitizer_removes_categories:
  "sanitizer_removes c = (listed_category c \<or> is_bidi_embedding c)"
  by (auto simp: sanitizer_removes_def listed_category_def is_ascii_control_def
      is_zero_width_mark_def is_byte_order_mark_def is_bidi_override_def is_bidi_embedding_def)

text \<open>
  C8, as the code has it. The text sanitizer is idempotent, and its result is the input with
  exactly these code units deleted: U+0000 to U+001F, U+007F, U+200B, U+200C, U+200D,
  U+FEFF, U+202A, U+202B, U+202C, U+202D and U+202E; every other code unit is kept, in
  order and unchanged. These are the listed categories (ASCII control characters,
  zero-width space and joiners, byte-order mark, bidirectional overrides) together with
  the three embedding controls U+202A to U+202C.
\<close>

theorem stripControlChars_idempotent_code_points:
  "stripControlChars (stripControlChars s) = stripControlChars s \<and>
   stripControlChars s = filter (\<lambda>c. \<not> sanitizer_removes c) s \<and>
   sanitizer_removes c = (listed_category c \<or> is_bidi_embedding c)"
  by (simp add: stripControlChars_filter sanitizer_removes_categories)

text \<open>
  The claim as stated fails: LEFT-TO-RIGHT EMBEDDING (U+202A) is deleted although it is an
  embedding control and belongs to none of the listed categories. The directional isolate
  U+2066, on the other hand, is kept.
\<close>

theorem stripControlChars_deletes_embedding_counterexample:
  "stripControlChars [0x202A] = [] \<and> \<not> listed_category 0x202A \<and>
   stripControlChars [0x2066] = [0x2066]"
  by (simp add: stripControlChars_filter sanitizer_removes_def listed_category_def
      is_ascii_control_def is_zero_width_mark_def is_byte_order_mark_def is_bidi_override_def)

section \<open>Semantics of the patterns\<close>

lemma re_cls_set: "r \<in> set (re_cls p s) \<longleftrightarrow> (\<exists>c. s = c # r \<and> p c)"
  by (auto simp: re_cls_def split: list.splits)

lemma re_seq_set: "r \<in> set (re_seq p q s) \<longleftrightarrow> (\<exists>m \<in> set (p s). r \<in> set (q m))"
  by (auto simp: re_seq_def)

lemma re_alt_set: "r \<in> set (re_alt p q s) \<longleftrightarrow> r \<in> set (p s) \<or> r \<in> set (q s)"
  by (auto simp: re_alt_def)

lemma re_eos_set: "r \<in> set (re_eos s) \<longleftrightarrow> s = [] \<and> r = []"
  by (auto simp: re_eos_def)

lemma re_lit_set: "r \<in> set (re_lit w s) \<longleftrightarrow> s = w @ r"
  by (auto simp: re_lit_def) (metis append_take_drop_id)

lemma re_test_set: "re_test r s \<longleftrightarrow> (\<exists>x. x \<in> set (r s))"
  by (cases "r s") (auto simp: re_test_def)

lemma re_rep_cls_set:
  "r \<in> set (re_rep lo hi (re_cls p) s) \<longleftrightarrow>
   (\<exists>w. s = w @ r \<and> lo \<le> length w \<and> length w \<le> hi \<and> list_all p w)"
proof (induction hi arbitrary: lo s)
  case 0
  then show ?case by auto
next
  case (Suc hi)
  show ?case
  proof
    assume "r \<in> set (re_rep lo (Suc hi) (re_cls p) s)"
    then consider (step) m where "m \<in> set (re_cls p s)" "r \<in> set (re_rep (lo - 1) hi (re_cls p) m)"
      | (stop) "lo = 0" "r = s"
      by (auto split: if_splits)
    then show "\<exists>w. s = w @ r \<and> lo \<le> length w \<and> length w \<le> Suc hi \<and> list_all p w"
    proof cases
      case step
      from step(1) obtain c where c: "s = c # m" "p c" by (auto simp: re_cls_set)
      from step(2) obtain w where w: "m = w @ r" "lo - 1 \<le> length w" "length w \<le> hi" "list_all p w"
        by (auto simp: Suc.IH)
      show ?thesis
        by (rule exI [of _ "c # w"]) (use c w in auto)
    next
      case stop
      then show ?thesis by (intro exI [of _ "[]"]) simp
    qed
  next
    assume "\<exists>w. s = w @ r \<and> lo \<le> length w \<and> length w \<le> Suc hi \<and> list_all p w"
    then obtain w where w: "s = w @ r" "lo \<le> length w" "length w \<le> Suc hi" "list_all p w"
      by blast
    show "r \<in> set (re_rep lo (Suc hi) (re_cls p) s)"
    proof (cases w)
      case Nil
      with w show ?thesis by simp
    next
      case (Cons c v)
      with w have "v @ r \<in> set (re_cls p s)" by (simp add: re_cls_set)
      moreover have "r \<in> set (re_rep (lo - 1) hi (re_cls p) (v @ r))"
        unfolding Suc.IH using w Cons by (intro exI [of _ v]) auto
      ultimately show ?thesis by auto
    qed
  qed
qed

lemma in_class_slug_first:
  "in_class [(cu CHR ''a'', cu CHR ''z''), (cu CHR ''0'', cu CHR ''9'')] c = is_lower_alnum c"
  by (simp add: in_class_def is_lower_alnum_def)

lemma in_class_slug_rest:
  "in_class [(cu CHR ''a'', cu CHR ''z''), (cu CHR ''0'', cu CHR ''9''),
       (cu CHR ''-'', cu CHR ''-''), (cu CHR ''_'', cu CHR ''_'')] c = is_slug_char c"
  by (auto simp: in_class_def is_slug_char_def is_lower_alnum_def)

lemma SLUG_RE_iff: "re_test SLUG_RE s = slug_pattern s"
proof (cases s)
  case Nil
  then show ?thesis
    by (simp add: re_test_def SLUG_RE_def re_seq_def re_cls_def slug_pattern_def)
next
  case (Cons c w)
  have "re_test SLUG_RE (c # w) \<longleftrightarrow>
        is_lower_alnum c \<and> [] \<in> set (re_rep 1 31 (re_cls is_slug_char) w)"
    unfolding SLUG_RE_def in_class_slug_first in_class_slug_rest [abs_def]
    by (auto simp: re_test_set re_seq_set re_cls_set re_eos_set)
  then show ?thesis
    by (simp add: Cons slug_pattern_def re_rep_cls_set)
qed

lemma is_slug_char_not_sep:
  "is_slug_char c \<Longrightarrow> c \<noteq> cu CHR ''.'' \<and> c \<noteq> cu CHR ''/'' \<and> c \<noteq> 0x5C"
  by (auto simp: is_slug_char_def is_lower_alnum_def cu_def)

lemma slug_pattern_all: "slug_pattern s \<Longrightarrow> list_all is_slug_char s"
  by (auto simp: slug_pattern_def is_slug_char_def split: list.splits)

lemma tails_set: "t \<in> set (tails s) \<longleftrightarrow> (\<exists>p. s = p @ t)"
proof (induction s)
  case Nil
  then show ?case by auto
next
  case (Cons a s)
  show ?case
    by (auto simp: Cons.IH Cons_eq_append_conv)
qed

lemma includes_sub_iff: "includes_sub s w \<longleftrightarrow> (\<exists>p r. s = p @ w @ r)"
proof -
  have "startsWith t w \<longleftrightarrow> (\<exists>r. t = w @ r)" for t
    unfolding startsWith_def by (metis append_take_drop_id append_eq_conv_conj)
  then have "includes_sub s w \<longleftrightarrow> (\<exists>t. (\<exists>p. s = p @ t) \<and> (\<exists>r. t = w @ r))"
    by (simp add: includes_sub_def list_ex_iff tails_set Bex_def)
  then show ?thesis by blast
qed

lemma includes_sub_single: "includes_sub s [c] \<longleftrightarrow> c \<in> set s"
  by (auto simp: includes_sub_iff in_set_conv_decomp)

lemma includes_sub_hd_in_set: "includes_sub s (c # w) \<Longrightarrow> c \<in> set s"
  by (auto simp: includes_sub_iff)

section \<open>Slug validation: the strict policy\<close>

lemma validateCustomSlug_Inr_pattern: "validateCustomSlug P raw = Inr slug \<Longrightarrow> slug_pattern slug"
  by (cases raw) (auto simp: validateCustomSlug_def Let_def SLUG_RE_iff split: if_splits)

text \<open>
  C9. Whenever \<open>validateCustomSlug\<close> succeeds, the slug it returns matches the pattern
  (a lower-case letter or digit, then 1 to 31 lower-case letters, digits, hyphens or
  underscores), so it contains no dot, slash or backslash; and the branch that reports path
  separators, placed after the pattern check, is never taken.
\<close>

theorem validateCustomSlug_pattern_no_separators:
  "(validateCustomSlug P raw = Inr slug \<longrightarrow>
      slug_pattern slug \<and> cu CHR ''.'' \<notin> set slug \<and> cu CHR ''/'' \<notin> set slug \<and>
      0x5C \<notin> set slug) \<and>
   validateCustomSlug P raw \<noteq> Inl SlugPathSeparators"
proof -
  have clean: "cu CHR ''.'' \<notin> set s \<and> cu CHR ''/'' \<notin> set s \<and> 0x5C \<notin> set s"
    if "slug_pattern s" for s
  proof -
    from that have "list_all is_slug_char s" by (rule slug_pattern_all)
    then show ?thesis
      using is_slug_char_not_sep by (auto simp: list_all_iff)
  qed
  have no_sub: "\<not> includes_sub s (js ''..'') \<and> \<not> includes_sub s (js ''/'') \<and> \<not> includes_sub s [0x5C]"
    if "slug_pattern s" for s
    using clean [OF that] includes_sub_hd_in_set [of s "cu CHR ''.''" "[cu CHR ''.'']"]
      includes_sub_hd_in_set [of s "cu CHR ''/''" "[]"] includes_sub_hd_in_set [of s "0x5C" "[]"]
    by (auto simp: js_def)
  show ?thesis
  proof (cases raw)
    case (JStr raw_str)
    then show ?thesis
      using clean no_sub
      by (auto simp: validateCustomSlug_def Let_def SLUG_RE_iff split: if_splits)
  qed (simp_all add: validateCustomSlug_def)
qed

theorem validateCustomSlug_pattern_no_separators_witness:
  "validateCustomSlug sample_platform (JStr (js ''my-link_1'')) = Inr (js ''my-link_1'') \<and>
   slug_pattern (js ''my-link_1'') \<and> cu CHR ''.'' \<notin> set (js ''my-link_1'') \<and>
   cu CHR ''/'' \<notin> set (js ''my-link_1'') \<and> 0x5C \<notin> set (js ''my-link_1'')"
proof -
  have ok: "validateCustomSlug sample_platform (JStr (js ''my-link_1'')) = Inr (js ''my-link_1'')"
    by code_simp
  show ?thesis
    using validateCustomSlug_pattern_no_separators
      [of sample_platform "JStr (js ''my-link_1'')" "js ''my-link_1''"] ok
    by blast
qed

lemma is_slug_char_plain:
  assumes "is_slug_char c"
  shows "\<not> sanitizer_removes c" and "\<not> is_whitespace c" and "is_ascii c" and "ascii_lower c = c"
proof -
  let ?n = "unat c"
  from assms have range: "(0x61 \<le> ?n \<and> ?n \<le> 0x7A) \<or> (0x30 \<le> ?n \<and> ?n \<le> 0x39) \<or> ?n = 0x2D \<or> ?n = 0x5F"
    by (auto simp: is_slug_char_def is_lower_alnum_def cu_def word_le_nat_alt)
  then show "\<not> sanitizer_removes c"
    by (auto simp: sanitizer_removes_def is_ascii_control_def is_zero_width_mark_def
        is_byte_order_mark_def is_bidi_override_def word_le_nat_alt word_unat_eq_iff)
  from range show "\<not> is_whitespace c"
    by (auto simp: is_whitespace_def WHITESPACE_CLASS_def in_class_def word_le_nat_alt)
  from range show "is_ascii c"
    by (auto simp: is_ascii_def word_less_nat_alt)
  from range show "ascii_lower c = c"
    by (auto simp: ascii_lower_def word_le_nat_alt)
qed

lemma stripControlChars_id: "list_all (\<lambda>c. \<not> sanitizer_removes c) s \<Longrightarrow> stripControlChars s = s"
  by (simp add: stripControlChars_filter list_all_iff)

lemma trim_id: "list_all (\<lambda>c. \<not> is_whitespace c) s \<Longrightarrow> trim s = s"
proof -
  assume a: "list_all (\<lambda>c. \<not> is_whitespace c) s"
  have d: "dropWhile is_whitespace t = t" if "list_all (\<lambda>c. \<not> is_whitespace c) t" for t
    using that by (cases t) simp_all
  from a have "list_all (\<lambda>c. \<not> is_whitespace c) (rev s)" by (simp add: list_all_iff)
  with a show ?thesis by (simp add: trim_def d)
qed

lemma toLowerCase_id:
  "list_all is_ascii s \<Longrightarrow> list_all (\<lambda>c. ascii_lower c = c) s \<Longrightarrow> toLowerCase P s = s"
  by (simp add: toLowerCase_def list_all_iff map_idI)

lemma slug_chars_normal_form:
  assumes "list_all is_slug_char s"
  shows "toLowerCase P (trim (stripControlChars s)) = s"
proof -
  from assms have "list_all (\<lambda>c. \<not> sanitizer_removes c) s" "list_all (\<lambda>c. \<not> is_whitespace c) s"
    "list_all is_ascii s" "list_all (\<lambda>c. ascii_lower c = c) s"
    using is_slug_char_plain by (auto simp: list_all_iff)
  then show ?thesis
    by (simp add: stripControlChars_id trim_id toLowerCase_id)
qed

lemma LOOKUP_RE_iff: "re_test LOOKUP_RE s \<longleftrightarrow> s \<noteq> [] \<and> list_all is_slug_char s"
proof -
  have "re_test LOOKUP_RE s \<longleftrightarrow> [] \<in> set (re_rep 1 (length s) (re_cls is_slug_char) s)"
    unfolding LOOKUP_RE_def in_class_slug_rest [abs_def]
    by (auto simp: re_test_set re_seq_set re_eos_set re_plus_def)
  also have "\<dots> \<longleftrightarrow> s \<noteq> [] \<and> list_all is_slug_char s"
    by (auto simp: re_rep_cls_set Suc_le_eq)
  finally show ?thesis .
qed

lemma lookup_accepts_slug_chars:
  assumes "list_all is_slug_char s" and "1 \<le> length s" and "length s \<le> 64"
  shows "validateLookupSlug P (JStr s) = Inr s"
proof -
  have "cu CHR ''.'' \<notin> set s"
    using assms(1) is_slug_char_not_sep by (auto simp: list_all_iff)
  then have "\<not> includes_sub s (js ''..'')"
    using includes_sub_hd_in_set [of s "cu CHR ''.''" "[cu CHR ''.'']"] by (auto simp: js_def)
  moreover from assms(2) have "s \<noteq> []" by auto
  ultimately show ?thesis
    using assms by (simp add: validateLookupSlug_def slug_chars_normal_form LOOKUP_RE_iff)
qed

lemma CHARS_lower_alnum: "list_all is_lower_alnum CHARS"
  by (simp add: CHARS_def js_def cu_def is_lower_alnum_def)

lemma generateCode_chars: "list_all is_slug_char (generateCode array)"
proof -
  have "is_slug_char (CHARS ! (n mod length CHARS))" for n
  proof -
    have "n mod length CHARS < length CHARS" by (simp add: CHARS_def js_def)
    then have "CHARS ! (n mod length CHARS) \<in> set CHARS" by (rule nth_mem)
    with CHARS_lower_alnum show ?thesis by (auto simp: list_all_iff is_slug_char_def)
  qed
  then show ?thesis by (simp add: generateCode_def list_all_iff)
qed

lemma is_ascii_strip: "list_all is_ascii s \<Longrightarrow> list_all is_ascii (stripControlChars s)"
  by (simp add: stripControlChars_filter list_all_iff)

lemma is_ascii_trim: "list_all is_ascii s \<Longrightarrow> list_all is_ascii (trim s)"
proof -
  have "set (dropWhile is_whitespace (rev (dropWhile is_whitespace s))) \<subseteq>
        set (dropWhile is_whitespace s)"
    by (auto dest: set_dropWhileD)
  also have "\<dots> \<subseteq> set s"
    by (auto dest: set_dropWhileD)
  finally have "set (trim s) \<subseteq> set s"
    by (simp add: trim_def)
  then show "list_all is_ascii s \<Longrightarrow> list_all is_ascii (trim s)"
    by (auto simp: list_all_iff)
qed

lemma is_ascii_ascii_lower: "is_ascii c \<Longrightarrow> is_ascii (ascii_lower c)"
proof -
  assume "is_ascii c"
  then have "unat c < 0x80" by (simp add: is_ascii_def word_less_nat_alt)
  moreover have "unat (c + 0x20) = unat c + 0x20" if "unat c \<le> 0x5A"
    using that by (simp add: unat_word_ariths)
  ultimately show ?thesis
    by (auto simp: ascii_lower_def is_ascii_def word_less_nat_alt word_le_nat_alt)
qed

lemma is_ascii_toLowerCase: "list_all is_ascii s \<Longrightarrow> list_all is_ascii (toLowerCase P s)"
  by (simp add: toLowerCase_def list_all_iff is_ascii_ascii_lower)

lemma nfkc_ascii: "list_all is_ascii s \<Longrightarrow> nfkc P s = s"
  by (simp add: nfkc_def)

section \<open>Slug validation: the lookup policy\<close>

text \<open>
  C5, as the code has it. The lookup policy does not apply NFKC normalisation, so a raw
  string that the strict policy accepts only after normalisation is not accepted by the
  lookup policy. What holds:
  \<^item> every slug returned by \<open>validateCustomSlug\<close> is accepted by \<open>validateLookupSlug\<close> and
    returned unchanged;
  \<^item> every raw string accepted by \<open>validateCustomSlug\<close> whose sanitised, trimmed and
    lower-cased form is left unchanged by NFKC normalisation, in particular every ASCII
    string, is accepted by \<open>validateLookupSlug\<close> with the same slug;
  \<^item> the codes that \<open>generateCode\<close> builds from 4, 5 or 6 random bytes are accepted by
    \<open>validateLookupSlug\<close>;
  \<^item> \<open>validateLookupSlug\<close> rejects every string whose normalised form contains two
    consecutive dots.
\<close>

theorem lookup_policy_covers_assigned_slugs:
  "(validateCustomSlug P raw = Inr slug \<longrightarrow> validateLookupSlug P (JStr slug) = Inr slug) \<and>
   (validateCustomSlug P (JStr s) = Inr slug \<and>
      nfkc P (toLowerCase P (trim (stripControlChars s))) = toLowerCase P (trim (stripControlChars s))
      \<longrightarrow> validateLookupSlug P (JStr s) = Inr slug) \<and>
   (validateCustomSlug P (JStr s) = Inr slug \<and> list_all is_ascii s
      \<longrightarrow> validateLookupSlug P (JStr s) = Inr slug) \<and>
   (length array \<in> {4, 5, 6} \<longrightarrow>
      validateLookupSlug P (JStr (generateCode array)) = Inr (generateCode array)) \<and>
   (includes_sub (toLowerCase P (trim (stripControlChars t))) (js ''..'') \<longrightarrow>
      isl (validateLookupSlug P (JStr t)))"
proof (intro conjI impI)
  have accepted: "slug_pattern t" if "validateCustomSlug P r = Inr t" for r t
    using that by (rule validateCustomSlug_Inr_pattern)
  have relookup: "validateLookupSlug P (JStr t) = Inr t" if "slug_pattern t" for t
  proof -
    from that have "list_all is_slug_char t" by (rule slug_pattern_all)
    moreover from that have "1 \<le> length t" "length t \<le> 64"
      by (auto simp: slug_pattern_def split: list.splits)
    ultimately show ?thesis by (rule lookup_accepts_slug_chars)
  qed
  show "validateLookupSlug P (JStr slug) = Inr slug" if "validateCustomSlug P raw = Inr slug"
    using that accepted relookup by blast
  show stable: "validateLookupSlug P (JStr s) = Inr slug"
    if h: "validateCustomSlug P (JStr s) = Inr slug \<and>
        nfkc P (toLowerCase P (trim (stripControlChars s))) = toLowerCase P (trim (stripControlChars s))"
  proof -
    let ?t = "toLowerCase P (trim (stripControlChars s))"
    from h have "slug = ?t"
      by (auto simp: validateCustomSlug_def Let_def split: if_splits)
    moreover from h have "slug_pattern slug" using accepted by blast
    ultimately have p: "slug_pattern ?t" by simp
    then have "list_all is_slug_char ?t" "?t \<noteq> []" "length ?t \<le> 64"
      by (auto simp: slug_pattern_all slug_pattern_def split: list.splits)
    moreover have "cu CHR ''.'' \<notin> set ?t"
      using \<open>list_all is_slug_char ?t\<close> is_slug_char_not_sep by (auto simp: list_all_iff)
    then have "\<not> includes_sub ?t (js ''..'')"
      using includes_sub_hd_in_set [of ?t "cu CHR ''.''" "[cu CHR ''.'']"] by (auto simp: js_def)
    ultimately show ?thesis
      using \<open>slug = ?t\<close> by (simp add: validateLookupSlug_def LOOKUP_RE_iff Let_def)
  qed
  show "validateLookupSlug P (JStr s) = Inr slug"
    if h: "validateCustomSlug P (JStr s) = Inr slug \<and> list_all is_ascii s"
  proof -
    from h have "list_all is_ascii (toLowerCase P (trim (stripControlChars s)))"
      by (simp add: is_ascii_strip is_ascii_trim is_ascii_toLowerCase)
    then show ?thesis using h stable by (simp add: nfkc_ascii)
  qed
  show "validateLookupSlug P (JStr (generateCode array)) = Inr (generateCode array)"
    if "length array \<in> {4, 5, 6}"
  proof -
    from that have "1 \<le> length (generateCode array)" "length (generateCode array) \<le> 64"
      by (auto simp: generateCode_def)
    with generateCode_chars show ?thesis by (rule lookup_accepts_slug_chars)
  qed
  show "isl (validateLookupSlug P (JStr t))"
    if "includes_sub (toLowerCase P (trim (stripControlChars t))) (js ''..'')"
    using that by (simp add: validateLookupSlug_def Let_def)
qed

theorem lookup_policy_covers_assigned_slugs_witness:
  "validateCustomSlug sample_platform (JStr (js ''My-Link_1'')) = Inr (js ''my-link_1'') \<and>
   nfkc sample_platform (toLowerCase sample_platform (trim (stripControlChars (js ''My-Link_1'')))) =
     toLowerCase sample_platform (trim (stripControlChars (js ''My-Link_1''))) \<and>
   list_all is_ascii (js ''My-Link_1'') \<and>
   length [0, 35, 36, 255 :: 8 word] \<in> {4, 5, 6} \<and>
   includes_sub (toLowerCase sample_platform (trim (stripControlChars (js ''a..b'')))) (js ''..'') \<and>
   validateLookupSlug sample_platform (JStr (js ''my-link_1'')) = Inr (js ''my-link_1'') \<and>
   validateLookupSlug sample_platform (JStr (js ''My-Link_1'')) = Inr (js ''my-link_1'') \<and>
   validateLookupSlug sample_platform (JStr (generateCode [0, 35, 36, 255])) =
     Inr (generateCode [0, 35, 36, 255]) \<and>
   isl (validateLookupSlug sample_platform (JStr (js ''a..b'')))"
proof -
  have h1: "validateCustomSlug sample_platform (JStr (js ''My-Link_1'')) = Inr (js ''my-link_1'')"
    by code_simp
  have h2: "nfkc sample_platform (toLowerCase sample_platform (trim (stripControlChars (js ''My-Link_1'')))) =
     toLowerCase sample_platform (trim (stripControlChars (js ''My-Link_1'')))"
    by code_simp
  have h3: "list_all is_ascii (js ''My-Link_1'')"
    by code_simp
  have h4: "length [0, 35, 36, 255 :: 8 word] \<in> {4, 5, 6}"
    by simp
  have h5: "includes_sub (toLowerCase sample_platform (trim (stripControlChars (js ''a..b'')))) (js ''..'')"
    by code_simp
  show ?thesis
    using lookup_policy_covers_assigned_slugs
      [of sample_platform "JStr (js ''My-Link_1'')" "js ''my-link_1''" "js ''My-Link_1''"
        "[0, 35, 36, 255]" "js ''a..b''"]
      h1 h2 h3 h4 h5
    by blast
qed

text \<open>
  The claim as stated fails: the two fullwidth letters U+FF41 U+FF42 are accepted by the
  strict policy, which normalises them to \<^verbatim>\<open>ab\<close>, and rejected by the lookup policy.
\<close>

theorem lookup_rejects_accepted_fullwidth_counterexample:
  "validateCustomSlug sample_platform (JStr [0xFF41, 0xFF42]) = Inr (js ''ab'') \<and>
   validateLookupSlug sample_platform (JStr [0xFF41, 0xFF42]) = Inl LookupInvalidChars"
  by code_simp

section \<open>The timing-safe comparator\<close>

lemma word_xor_eq_0_iff: "(x XOR y = 0) = (x = y)" for x y :: "'a::len word"
proof
  assume "x XOR y = 0"
  then have "x XOR (x XOR y) = x" by simp
  then show "x = y" by (simp flip: xor.assoc)
qed simp

lemma byte_diff_zero_iff:
  "((ucast (x :: 8 word) :: 32 word) XOR ucast (y :: 8 word) = 0) = (x = y)"
proof -
  have "(ucast x :: 32 word) XOR ucast y = ucast (x XOR y)"
    by (simp add: unsigned_xor_eq)
  moreover have "((ucast (x XOR y) :: 32 word) = 0) = (x XOR y = 0)"
  proof
    assume h: "(ucast (x XOR y) :: 32 word) = 0"
    have "ucast (ucast (x XOR y) :: 32 word) = x XOR y"
      by (rule ucast_up_ucast_id) (simp add: is_up)
    with h show "x XOR y = 0" by simp
  qed simp
  ultimately show ?thesis
    by (simp add: word_xor_eq_0_iff)
qed

lemma fold_or_zero_iff:
  "(fold (\<lambda>i (d :: 32 word). d OR f i) xs d0 = 0) = (d0 = 0 \<and> (\<forall>i \<in> set xs. f i = 0))"
  by (induction xs arbitrary: d0) (auto simp: or_eq_0_iff)

lemma timingSafeEqual_iff: "timingSafeEqual a b = (encode a = encode b)"
proof (cases "length (encode a) = length (encode b)")
  case True
  have "timingSafeEqual a b =
        (fold (\<lambda>i (d :: 32 word). d OR (ucast (encode a ! i) XOR ucast (encode b ! i)))
           [0 ..< length (encode a)] 0 = 0)"
    using True by (simp add: timingSafeEqual_def Let_def)
  also have "\<dots> = (\<forall>i < length (encode a). encode a ! i = encode b ! i)"
    by (auto simp: fold_or_zero_iff byte_diff_zero_iff)
  also have "\<dots> = (encode a = encode b)"
    using True by (simp add: list_eq_iff_nth_eq)
  finally show ?thesis .
next
  case False
  then show ?thesis
    by (auto simp: timingSafeEqual_def Let_def)
qed

lemma utf8_bytes_nat: "utf8_bytes n = map of_nat (utf8_nat n)"
  by (simp add: utf8_bytes_def utf8_nat_def)

lemma utf8_nat_bound: "n < 0x110000 \<Longrightarrow> b \<in> set (utf8_nat n) \<Longrightarrow> b < 256"
  by (auto simp: utf8_nat_def split: if_splits)

lemma utf8_nat_not_Nil: "utf8_nat n \<noteq> []"
  by (simp add: utf8_nat_def)

lemma base64_digits_eq: "m div 64 = n div 64 \<Longrightarrow> m mod 64 = n mod 64 \<Longrightarrow> m = n" for m n :: nat
  by (metis div_mult_mod_eq)

lemma base64_digits3_eq:
  assumes "m div 4096 = n div 4096" and "m div 64 mod 64 = n div 64 mod 64" and "m mod 64 = n mod 64"
  shows "m = (n :: nat)"
proof -
  have "m div 64 div 64 = n div 64 div 64"
    using assms(1) by (simp add: div_mult2_eq [symmetric])
  then have "m div 64 = n div 64"
    using assms(2) by (rule base64_digits_eq)
  then show ?thesis
    using assms(3) by (rule base64_digits_eq)
qed

lemma base64_digits4_eq:
  assumes "m div 262144 = n div 262144" and "m div 4096 mod 64 = n div 4096 mod 64"
    and "m div 64 mod 64 = n div 64 mod 64" and "m mod 64 = n mod 64"
  shows "m = (n :: nat)"
proof -
  have "m div 4096 div 64 = n div 4096 div 64"
    using assms(1) by (simp add: div_mult2_eq [symmetric])
  then have "m div 4096 = n div 4096"
    using assms(2) by (rule base64_digits_eq)
  then show ?thesis
    using assms(3,4) by (rule base64_digits3_eq)
qed

lemma utf8_nat_prefix_free:
  assumes "m < 0x110000" and "n < 0x110000" and "utf8_nat m @ xs = utf8_nat n @ ys"
  shows "m = n \<and> xs = ys"
  using assms
  by (auto simp: utf8_nat_def split: if_splits
      intro: base64_digits_eq base64_digits3_eq base64_digits4_eq)

lemma concat_utf8_nat_inj:
  assumes "\<forall>m \<in> set ms. m < 0x110000" and "\<forall>n \<in> set ns. n < 0x110000"
    and "concat (map utf8_nat ms) = concat (map utf8_nat ns)"
  shows "ms = ns"
  using assms
proof (induction ms arbitrary: ns)
  case Nil
  then show ?case by (cases ns) (simp_all add: utf8_nat_not_Nil)
next
  case (Cons m ms)
  show ?case
  proof (cases ns)
    case Nil
    with Cons.prems show ?thesis by (simp add: utf8_nat_not_Nil)
  next
    case (Cons n ns')
    with Cons.prems have "utf8_nat m @ concat (map utf8_nat ms) = utf8_nat n @ concat (map utf8_nat ns')"
      and "m < 0x110000" and "n < 0x110000"
      by simp_all
    then have "m = n" and "concat (map utf8_nat ms) = concat (map utf8_nat ns')"
      using utf8_nat_prefix_free by blast+
    moreover from this(2) have "ms = ns'"
      using Cons.IH [of ns'] Cons.prems Cons by simp
    ultimately show ?thesis using Cons by simp
  qed
qed

lemma byte_of_nat_inj:
  assumes "a < 256" and "b < 256" and "(of_nat a :: 8 word) = of_nat b"
  shows "a = b"
proof -
  from assms(3) have "take_bit 8 a = take_bit 8 b"
    by (simp add: word_of_nat_eq_iff)
  moreover have "take_bit 8 a = a" "take_bit 8 b = b"
    using assms(1,2) by (simp_all add: take_bit_nat_eq_self_iff)
  ultimately show ?thesis by simp
qed

lemma map_byte_of_nat_inj:
  assumes "\<forall>a \<in> set xs. a < 256" and "\<forall>b \<in> set ys. b < 256"
    and "map (of_nat :: nat \<Rightarrow> 8 word) xs = map of_nat ys"
  shows "xs = ys"
  using assms
proof (induction xs arbitrary: ys)
  case Nil
  then show ?case by simp
next
  case (Cons a xs)
  then obtain b ys' where ys: "ys = b # ys'" by (cases ys) auto
  with Cons.prems have "a = b" by (auto intro: byte_of_nat_inj)
  moreover have "xs = ys'" using Cons.IH [of ys'] Cons.prems ys by simp
  ultimately show ?case using ys by simp
qed

lemma unat_unit_bound: "unat (c :: 16 word) < 0x10000"
  using unsigned_less [of c, where 'a = nat] by simp

lemma scalar_of_unit_bound: "scalar_of_unit c < 0x10000"
  using unat_unit_bound [of c] by (simp add: scalar_of_unit_def)

lemma code_points_bound: "n \<in> set (code_points s) \<Longrightarrow> n < 0x110000"
proof (induction s arbitrary: n rule: code_points.induct)
  case 1
  then show ?case by simp
next
  case (2 c)
  then show ?case using scalar_of_unit_bound [of c] by simp
next
  case (3 c d r)
  have pair: "0x10000 + (unat c - 0xD800) * 0x400 + (unat d - 0xDC00) < (0x110000 :: nat)"
    if "is_high_surrogate c" "is_low_surrogate d"
  proof -
    from that have "unat c \<le> 0xDBFF" "unat d \<le> 0xDFFF"
      by (simp_all add: is_high_surrogate_def is_low_surrogate_def word_le_nat_alt)
    then show ?thesis by simp
  qed
  from 3 show ?case
    using scalar_of_unit_bound [of c] pair by (auto split: if_splits)
qed

lemma encode_nat: "encode s = map of_nat (concat (map utf8_nat (code_points s)))"
  by (simp add: encode_def utf8_bytes_nat [abs_def] map_concat comp_def)

lemma encode_eq_code_points:
  assumes "encode a = encode b"
  shows "code_points a = code_points b"
proof -
  have bound: "\<forall>x \<in> set (concat (map utf8_nat (code_points s))). x < 256" for s
    using utf8_nat_bound code_points_bound by auto
  have "concat (map utf8_nat (code_points a)) = concat (map utf8_nat (code_points b))"
    using assms bound [of a] bound [of b] unfolding encode_nat by (rule map_byte_of_nat_inj [rotated 2])
  moreover have "\<forall>m \<in> set (code_points a). m < 0x110000" "\<forall>n \<in> set (code_points b). n < 0x110000"
    using code_points_bound by blast+
  ultimately show ?thesis
    using concat_utf8_nat_inj by blast
qed

lemma code_points_pair:
  "code_points (c # d # r) =
     (if is_high_surrogate c \<and> is_low_surrogate d then pair_value c d # code_points r
      else scalar_of_unit c # code_points (d # r))"
  by (simp add: pair_value_def)

lemma pair_value_ge: "0x10000 \<le> pair_value c d"
  by (simp add: pair_value_def)

lemma pair_value_inj:
  assumes "is_high_surrogate c" "is_low_surrogate d" "is_high_surrogate c'" "is_low_surrogate d'"
    and "pair_value c d = pair_value c' d'"
  shows "c = c' \<and> d = d'"
proof -
  let ?h = "unat c - 0xD800" and ?l = "unat d - 0xDC00"
  let ?h' = "unat c' - 0xD800" and ?l' = "unat d' - 0xDC00"
  from assms(1-4) have b: "0xD800 \<le> unat c" "0xDC00 \<le> unat d" "0xD800 \<le> unat c'" "0xDC00 \<le> unat d'"
    "unat d \<le> 0xDFFF" "unat d' \<le> 0xDFFF"
    by (simp_all add: is_high_surrogate_def is_low_surrogate_def word_le_nat_alt)
  then have l: "?l < 0x400" "?l' < 0x400" by simp_all
  from assms(5) have e: "?h * 0x400 + ?l = ?h' * 0x400 + ?l'"
    by (simp add: pair_value_def)
  have "(?h * 0x400 + ?l) div 0x400 = ?h" "(?h' * 0x400 + ?l') div 0x400 = ?h'"
    using l by simp_all
  with e have h: "?h = ?h'" by simp
  with e have "?l = ?l'" by simp
  with h b have "unat c = unat c'" "unat d = unat d'" by simp_all
  then show ?thesis by (simp add: word_unat_eq_iff)
qed

lemma code_points_Nil_iff: "code_points s = [] \<longleftrightarrow> s = []"
  by (induction s rule: code_points.induct) auto

lemma scalar_plain: "\<not> is_high_surrogate c \<Longrightarrow> \<not> is_low_surrogate c \<Longrightarrow> scalar_of_unit c = unat c"
  by (simp add: scalar_of_unit_def)

lemma not_both_surrogates: "is_high_surrogate c \<Longrightarrow> \<not> is_low_surrogate c"
  by (simp add: is_high_surrogate_def is_low_surrogate_def word_le_nat_alt)

text \<open>A well-formed string starts with a plain code unit or with a surrogate pair.\<close>

lemma well_formed_cases:
  assumes "well_formed s"
  obtains (empty) "s = []"
  | (plain) c r where "s = c # r" "\<not> is_high_surrogate c" "\<not> is_low_surrogate c" "well_formed r"
      "code_points s = unat c # code_points r"
  | (pair) c d r where "s = c # d # r" "is_high_surrogate c" "is_low_surrogate d" "well_formed r"
      "code_points s = pair_value c d # code_points r"
proof (cases s rule: well_formed.cases)
  case 1
  then show ?thesis by (rule empty)
next
  case (2 c)
  with assms show ?thesis by (intro plain [of c "[]"]) (simp_all add: scalar_plain)
next
  case (3 c d r)
  show ?thesis
  proof (cases "is_high_surrogate c")
    case True
    with assms 3 show ?thesis by (intro pair [of c d r]) (simp_all add: pair_value_def)
  next
    case False
    with assms 3 show ?thesis
      by (intro plain [of c "d # r"]) (simp_all add: scalar_plain)
  qed
qed

lemma code_points_inj:
  assumes "well_formed a" and "well_formed b" and "code_points a = code_points b"
  shows "a = b"
  using assms
proof (induction "length a" arbitrary: a b rule: less_induct)
  case less
  from less.prems(1) show ?case
  proof (cases a rule: well_formed_cases)
    case empty
    with less.prems(3) have "code_points b = []" by simp
    with empty show ?thesis by (simp add: code_points_Nil_iff)
  next
    case (plain c r)
    note a = plain
    from less.prems(2) show ?thesis
    proof (cases b rule: well_formed_cases)
      case empty
      with less.prems(3) a show ?thesis by simp
    next
      case (plain c' r')
      with a less.prems(3) have "unat c = unat c'" "code_points r = code_points r'" by simp_all
      moreover have "length r < length a" using a by simp
      ultimately have "c = c'" "r = r'"
        using less.hyps [of r r'] a(4) plain(4) by (simp_all add: word_unat_eq_iff)
      with a(1) plain(1) show ?thesis by simp
    next
      case (pair c' d' r')
      with a less.prems(3) have "unat c = pair_value c' d'" by simp
      with pair_value_ge [of c' d'] unat_unit_bound [of c] show ?thesis by simp
    qed
  next
    case (pair c d r)
    note a = pair
    from less.prems(2) show ?thesis
    proof (cases b rule: well_formed_cases)
      case empty
      with less.prems(3) a show ?thesis by simp
    next
      case (plain c' r')
      with a less.prems(3) have "pair_value c d = unat c'" by simp
      with pair_value_ge [of c d] unat_unit_bound [of c'] show ?thesis by simp
    next
      case (pair c' d' r')
      with a less.prems(3) have "pair_value c d = pair_value c' d'" "code_points r = code_points r'"
        by simp_all
      moreover have "length r < length a" using a by simp
      ultimately have "r = r'"
        using less.hyps [of r r'] a(4) pair(4) by simp
      moreover have "c = c' \<and> d = d'"
        using a(2,3) pair(2,3) \<open>pair_value c d = pair_value c' d'\<close> by (rule pair_value_inj)
      ultimately show ?thesis using a(1) pair(1) by simp
    qed
  qed
qed

lemma encode_inj_well_formed:
  "well_formed a \<Longrightarrow> well_formed b \<Longrightarrow> encode a = encode b \<Longrightarrow> a = b"
  using code_points_inj encode_eq_code_points by blast

text \<open>
  C4, as the code has it. The comparator compares the UTF-8 encodings of its arguments, and
  the encoder replaces every unpaired surrogate by U+FFFD. So it returns true exactly when
  the encodings are equal: true on \<open>(a, a)\<close> for every string \<open>a\<close>, and false for every pair
  of distinct well-formed strings. It is a total function: no input makes it throw.
\<close>

theorem timingSafeEqual_compares_encodings:
  "timingSafeEqual a b = (encode a = encode b) \<and>
   timingSafeEqual a a \<and>
   (well_formed a \<and> well_formed b \<and> a \<noteq> b \<longrightarrow> \<not> timingSafeEqual a b)"
  using encode_inj_well_formed [of a b] by (auto simp: timingSafeEqual_iff)

theorem timingSafeEqual_compares_encodings_witness:
  "well_formed (js ''0123456789abcdef'') \<and> well_formed (js ''0123456789abcdeg'') \<and>
   js ''0123456789abcdef'' \<noteq> js ''0123456789abcdeg'' \<and>
   \<not> timingSafeEqual (js ''0123456789abcdef'') (js ''0123456789abcdeg'')"
proof -
  have h1: "well_formed (js ''0123456789abcdef'')"
    by code_simp
  have h2: "well_formed (js ''0123456789abcdeg'')"
    by code_simp
  have h3: "js ''0123456789abcdef'' \<noteq> js ''0123456789abcdeg''"
    by code_simp
  from timingSafeEqual_compares_encodings [of "js ''0123456789abcdef''" "js ''0123456789abcdeg''"]
  have "\<not> timingSafeEqual (js ''0123456789abcdef'') (js ''0123456789abcdeg'')"
    using h1 h2 h3 by blast
  with h1 h2 h3 show ?thesis by blast
qed

text \<open>
  The claim as stated fails for strings with unpaired surrogates: the two distinct
  one-unit strings U+D800 and U+D801 both encode to \<^verbatim>\<open>EF BF BD\<close> and compare equal.
\<close>

theorem timingSafeEqual_lone_surrogates_counterexample:
  "[0xD800] \<noteq> [0xD801 :: 16 word] \<and> timingSafeEqual [0xD800] [0xD801]"
  by (simp add: timingSafeEqual_iff encode_def scalar_of_unit_def is_high_surrogate_def)

section \<open>Admin authentication\<close>

lemma trim_keeps_first: "\<not> is_whitespace c \<Longrightarrow> trim (c # r) = c # rev (dropWhile is_whitespace (rev r))"
  by (simp add: trim_def dropWhile_append3)

text \<open>
  C10. \<open>checkAdminAuth\<close> returns false, without calling the comparator, whenever the
  trimmed Authorization header does not start with the exact prefix \<^verbatim>\<open>Bearer \<close>. In
  particular the header \<^verbatim>\<open>bearer <token>\<close> is rejected, without a comparison, even when
  the token is the configured key.
\<close>

theorem checkAdminAuth_requires_Bearer_prefix:
  "(\<not> startsWith (trim (case authorization of None \<Rightarrow> [] | Some v \<Rightarrow> v)) (js ''Bearer '') \<longrightarrow>
      checkAdminAuth authorization ADMIN_KEY = (False, [])) \<and>
   checkAdminAuth (Some (js ''bearer '' @ token)) (Some token) = (False, [])"
proof
  show "\<not> startsWith (trim (case authorization of None \<Rightarrow> [] | Some v \<Rightarrow> v)) (js ''Bearer '') \<longrightarrow>
      checkAdminAuth authorization ADMIN_KEY = (False, [])"
    by (simp add: checkAdminAuth_def Let_def split: option.splits)
  have "\<not> is_whitespace (cu CHR ''b'')"
    by (simp add: is_whitespace_def WHITESPACE_CLASS_def in_class_def cu_def)
  then have "\<not> startsWith (trim (js ''bearer '' @ token)) (js ''Bearer '')"
    by (simp add: js_def trim_keeps_first startsWith_def cu_def)
  then show "checkAdminAuth (Some (js ''bearer '' @ token)) (Some token) = (False, [])"
    by (simp add: checkAdminAuth_def Let_def)
qed

theorem checkAdminAuth_requires_Bearer_prefix_witness:
  "\<not> startsWith (trim (case Some (js ''bearer 0123456789abcdef'') of None \<Rightarrow> [] | Some v \<Rightarrow> v))
       (js ''Bearer '') \<and>
   checkAdminAuth (Some (js ''bearer 0123456789abcdef'')) (Some (js ''0123456789abcdef'')) = (False, []) \<and>
   checkAdminAuth (Some (js ''Bearer 0123456789abcdef'')) (Some (js ''0123456789abcdef'')) =
     (True, [(js ''0123456789abcdef'', js ''0123456789abcdef'')])"
proof -
  have h: "\<not> startsWith (trim (case Some (js ''bearer 0123456789abcdef'') of None \<Rightarrow> [] | Some v \<Rightarrow> v))
       (js ''Bearer '')"
    by code_simp
  have ok: "checkAdminAuth (Some (js ''Bearer 0123456789abcdef'')) (Some (js ''0123456789abcdef'')) =
     (True, [(js ''0123456789abcdef'', js ''0123456789abcdef'')])"
    by code_simp
  show ?thesis
    using checkAdminAuth_requires_Bearer_prefix
      [of "Some (js ''bearer 0123456789abcdef'')" "Some (js ''0123456789abcdef'')"] h ok
    by blast
qed

section \<open>Bounded ingestion of the request body\<close>

lemma total_bytes_simps [simp]:
  "total_bytes [] = 0" "total_bytes (c # cs) = length c + total_bytes cs"
  "total_bytes (xs @ ys) = total_bytes xs + total_bytes ys"
  by (simp_all add: total_bytes_def)

lemma read_loop_exceeds:
  assumes "t + total_bytes pre \<le> MAX_BODY_BYTES"
    and "MAX_BODY_BYTES < t + total_bytes pre + length v"
  shows "read_loop (map Chunk pre @ Chunk v # rest) t chunks io =
         (ReadTooLarge,
          io\<lparr>chunks_read := chunks_read io + length pre + 1,
             bytes_read := bytes_read io + total_bytes pre + length v,
             cancelled := True\<rparr>)"
  using assms
proof (induction pre arbitrary: t chunks io)
  case Nil
  then show ?case by (simp add: Let_def)
next
  case (Cons c pre)
  from Cons.prems have step: "\<not> MAX_BODY_BYTES < t + length c" by simp
  have "read_loop (map Chunk (c # pre) @ Chunk v # rest) t chunks io =
        read_loop (map Chunk pre @ Chunk v # rest) (t + length c) (chunks @ [c])
          (io\<lparr>chunks_read := chunks_read io + 1, bytes_read := bytes_read io + length c\<rparr>)"
    using step by (simp add: Let_def)
  also have "\<dots> = (ReadTooLarge,
          io\<lparr>chunks_read := chunks_read io + length (c # pre) + 1,
             bytes_read := bytes_read io + total_bytes (c # pre) + length v,
             cancelled := True\<rparr>)"
    using Cons.prems by (subst Cons.IH) (simp_all add: add.assoc)
  finally show ?case .
qed

lemma first_excess_chunk:
  assumes "t \<le> cap" and "cap < t + total_bytes cs"
  shows "\<exists>pre v rest. cs = pre @ v # rest \<and> t + total_bytes pre \<le> cap \<and>
           cap < t + total_bytes pre + length v"
  using assms
proof (induction cs arbitrary: t)
  case Nil
  then show ?case by simp
next
  case (Cons c cs)
  show ?case
  proof (cases "cap < t + length c")
    case True
    with Cons.prems show ?thesis
      by (intro exI [of _ "[]"] exI [of _ c] exI [of _ cs]) simp
  next
    case False
    with Cons.prems obtain pre v rest where
      "cs = pre @ v # rest" "t + length c + total_bytes pre \<le> cap"
      "cap < t + length c + total_bytes pre + length v"
      using Cons.IH [of "t + length c"] by (auto simp: add.assoc)
    then show ?thesis
      by (intro exI [of _ "c # pre"] exI [of _ v] exI [of _ rest]) (simp add: add.assoc)
  qed
qed

text \<open>
  C6. A request whose declared Content-Length parses to more than 8192 fails without any
  read of the body (with the body-too-large error when the content type is JSON). A JSON
  request without a declared length whose stream delivers chunks holding more than 8192
  bytes in total fails with the body-too-large error at the first chunk that takes the
  running total over the cap: the reader is cancelled and no later chunk is read.
\<close>

theorem readJsonBody_enforces_cap:
  "(content_length req = Some declared \<and> parseInt10 declared = Some n \<and> int MAX_BODY_BYTES < n \<longrightarrow>
      isl (fst (readJsonBody P req)) \<and> snd (readJsonBody P req) = no_io \<and>
      (content_type_is_json P req \<longrightarrow> fst (readJsonBody P req) = Inl BodyTooLarge)) \<and>
   (content_type_is_json P req' \<and> content_length req' = None \<and>
    body req' = Some (map Chunk cs @ later) \<and> MAX_BODY_BYTES < total_bytes cs \<longrightarrow>
      (\<exists>pre v rest. cs = pre @ v # rest \<and> total_bytes pre \<le> MAX_BODY_BYTES \<and>
         MAX_BODY_BYTES < total_bytes pre + length v \<and>
         readJsonBody P req' =
           (Inl BodyTooLarge,
            \<lparr>chunks_read = length pre + 1, bytes_read = total_bytes pre + length v,
             cancelled = True\<rparr>)))"
proof (intro conjI impI)
  assume h: "content_length req = Some declared \<and> parseInt10 declared = Some n \<and> int MAX_BODY_BYTES < n"
  then have "declared \<noteq> []" by (auto simp: parseInt10_def trimStart_def)
  with h show "isl (fst (readJsonBody P req))" "snd (readJsonBody P req) = no_io"
    by (simp_all add: readJsonBody_def Let_def)
  show "fst (readJsonBody P req) = Inl BodyTooLarge" if "content_type_is_json P req"
    using that h \<open>declared \<noteq> []\<close> by (simp add: readJsonBody_def Let_def content_type_is_json_def)
next
  assume h: "content_type_is_json P req' \<and> content_length req' = None \<and>
    body req' = Some (map Chunk cs @ later) \<and> MAX_BODY_BYTES < total_bytes cs"
  then obtain pre v rest where d: "cs = pre @ v # rest" "total_bytes pre \<le> MAX_BODY_BYTES"
    "MAX_BODY_BYTES < total_bytes pre + length v"
    using first_excess_chunk [of 0 MAX_BODY_BYTES cs] by auto
  have zero: "parseInt10 (js ''0'') = Some 0"
    by (simp add: parseInt10_def js_def cu_def trimStart_def is_whitespace_def WHITESPACE_CLASS_def
        in_class_def DIGIT_def digit_value_def)
  have "read_loop (map Chunk pre @ Chunk v # (map Chunk rest @ later)) 0 [] no_io =
        (ReadTooLarge,
         no_io\<lparr>chunks_read := chunks_read no_io + length pre + 1,
            bytes_read := bytes_read no_io + total_bytes pre + length v, cancelled := True\<rparr>)"
    using d(2,3) by (intro read_loop_exceeds) simp_all
  then have "readJsonBody P req' =
           (Inl BodyTooLarge,
            \<lparr>chunks_read = length pre + 1, bytes_read = total_bytes pre + length v,
             cancelled = True\<rparr>)"
    using h d(1) zero
    by (simp add: readJsonBody_def Let_def content_type_is_json_def no_io_def)
  with d show "\<exists>pre v rest. cs = pre @ v # rest \<and> total_bytes pre \<le> MAX_BODY_BYTES \<and>
         MAX_BODY_BYTES < total_bytes pre + length v \<and>
         readJsonBody P req' =
           (Inl BodyTooLarge,
            \<lparr>chunks_read = length pre + 1, bytes_read = total_bytes pre + length v,
             cancelled = True\<rparr>)"
    by blast
qed

theorem readJsonBody_enforces_cap_witness:
  "content_length \<lparr>content_type = Some (js ''application/json''), content_length = Some (js ''9000''),
       body = Some [Chunk [1, 2, 3]]\<rparr> = Some (js ''9000'') \<and>
   parseInt10 (js ''9000'') = Some 9000 \<and> int MAX_BODY_BYTES < 9000 \<and>
   readJsonBody sample_platform
     \<lparr>content_type = Some (js ''application/json''), content_length = Some (js ''9000''),
      body = Some [Chunk [1, 2, 3]]\<rparr> = (Inl BodyTooLarge, no_io) \<and>
   content_type_is_json sample_platform
     \<lparr>content_type = Some (js ''Application/JSON; charset=utf-8''), content_length = None,
      body = Some (map Chunk [replicate 8192 0, [1]] @ [Chunk [2, 3]])\<rparr> \<and>
   MAX_BODY_BYTES < total_bytes [replicate 8192 0, [1]] \<and>
   (\<exists>pre v rest. [replicate 8192 0, [1]] = pre @ v # rest \<and> total_bytes pre \<le> MAX_BODY_BYTES \<and>
      MAX_BODY_BYTES < total_bytes pre + length v \<and>
      readJsonBody sample_platform
        \<lparr>content_type = Some (js ''Application/JSON; charset=utf-8''), content_length = None,
         body = Some (map Chunk [replicate 8192 0, [1]] @ [Chunk [2, 3]])\<rparr> =
        (Inl BodyTooLarge,
         \<lparr>chunks_read = length pre + 1, bytes_read = total_bytes pre + length v,
          cancelled = True\<rparr>))"
proof -
  let ?req = "\<lparr>content_type = Some (js ''application/json''), content_length = Some (js ''9000''),
      body = Some [Chunk [1, 2, 3]]\<rparr>"
  let ?req' = "\<lparr>content_type = Some (js ''Application/JSON; charset=utf-8''), content_length = None,
      body = Some (map Chunk [replicate 8192 0, [1]] @ [Chunk [2, 3]])\<rparr>"
  have h1: "parseInt10 (js ''9000'') = Some 9000"
    by code_simp
  have h2: "int MAX_BODY_BYTES < 9000"
    by (simp add: MAX_BODY_BYTES_def)
  have h3: "content_type_is_json sample_platform ?req'"
    unfolding content_type_is_json_def by code_simp
  have h4: "MAX_BODY_BYTES < total_bytes [replicate 8192 0, [1]]"
    by (simp add: MAX_BODY_BYTES_def)
  have r1: "readJsonBody sample_platform ?req = (Inl BodyTooLarge, no_io)"
    by code_simp
  note inst = readJsonBody_enforces_cap
      [of ?req "js ''9000''" 9000 sample_platform ?req' "[replicate 8192 0, [1]]" "[Chunk [2, 3]]"]
  from inst h1 h2 have "snd (readJsonBody sample_platform ?req) = no_io"
    by simp
  moreover from inst h3 h4 have "\<exists>pre v rest. [replicate 8192 0, [1]] = pre @ v # rest \<and>
      total_bytes pre \<le> MAX_BODY_BYTES \<and> MAX_BODY_BYTES < total_bytes pre + length v \<and>
      readJsonBody sample_platform ?req' =
        (Inl BodyTooLarge,
         \<lparr>chunks_read = length pre + 1, bytes_read = total_bytes pre + length v,
          cancelled = True\<rparr>)"
    by simp
  ultimately show ?thesis
    using h1 h2 h3 h4 r1 by simp
qed

section \<open>URL validation: scheme and length\<close>

text \<open>
  C3, as the code has it. \<^verbatim>\<open>ftp://example.com\<close> fails with the scheme-not-allowed error.
  \<^verbatim>\<open>javascript:alert(1)\<close> fails with the missing-scheme error: the scheme pattern
  requires \<^verbatim>\<open>://\<close> after the scheme name, and this string has only a colon.
\<close>

theorem validateUrl_scheme_errors:
  "validateUrl P (JStr (js ''ftp://example.com'')) = Inl (UrlSchemeNotAllowed (js ''ftp'')) \<and>
   validateUrl P (JStr (js ''javascript:alert(1)'')) = Inl UrlMissingScheme"
  by code_simp

theorem validateUrl_scheme_errors_witness:
  "validateUrl sample_platform (JStr (js ''ftp://example.com'')) =
     Inl (UrlSchemeNotAllowed (js ''ftp'')) \<and>
   validateUrl sample_platform (JStr (js ''javascript:alert(1)'')) = Inl UrlMissingScheme"
  using validateUrl_scheme_errors [of sample_platform] by simp

text \<open>
  The claim as stated fails for the second input: its error is the missing-scheme error,
  not a scheme-not-allowed error.
\<close>

theorem validateUrl_javascript_counterexample:
  "validateUrl sample_platform (JStr (js ''javascript:alert(1)'')) = Inl UrlMissingScheme \<and>
   validateUrl sample_platform (JStr (js ''javascript:alert(1)'')) \<noteq>
     Inl (UrlSchemeNotAllowed (js ''javascript''))"
  by code_simp

text \<open>
  C2, as the code has it. The length is measured after sanitising, trimming and NFKC
  normalisation: every input whose normalised form has more than 2048 code units fails with
  the too-long error, whatever its content.
\<close>

theorem validateUrl_rejects_long_normalised:
  "2048 < length (nfkc P (trim (stripControlChars s))) \<Longrightarrow> validateUrl P (JStr s) = Inl UrlTooLong"
  by (auto simp: validateUrl_def Let_def)


lemma validateUrl_cong:
  "nfkc P (trim (stripControlChars s)) = nfkc P (trim (stripControlChars s')) \<Longrightarrow>
   validateUrl P (JStr s) = validateUrl P (JStr s')"
  by (simp add: validateUrl_def)

lemma stripControlChars_append:
  "stripControlChars (x @ y) = stripControlChars x @ stripControlChars y"
  by (simp add: stripControlChars_filter)

lemma stripControlChars_replicate:
  "\<not> sanitizer_removes c \<Longrightarrow> stripControlChars (replicate n c) = replicate n c"
  by (simp add: stripControlChars_filter)

lemma trim_trailing_whitespace:
  assumes "\<not> is_whitespace c" and "is_whitespace w"
  shows "trim ((c # r) @ replicate n w) = trim (c # r)"
proof -
  have "dropWhile is_whitespace (replicate n w @ rev r @ [c]) = dropWhile is_whitespace (rev r @ [c])"
    by (rule dropWhile_append2) (use assms(2) in simp)
  then show ?thesis
    using assms(1) by (simp add: trim_def)
qed

lemma space_is_whitespace: "is_whitespace (cu CHR '' '')" "\<not> sanitizer_removes (cu CHR '' '')"
  by (simp_all add: is_whitespace_def WHITESPACE_CLASS_def in_class_def cu_def sanitizer_removes_def
      is_ascii_control_def is_zero_width_mark_def is_byte_order_mark_def is_bidi_override_def)

theorem validateUrl_rejects_long_normalised_witness:
  "2048 < length (nfkc sample_platform (trim (stripControlChars (replicate 2049 (cu CHR ''a''))))) \<and>
   validateUrl sample_platform (JStr (replicate 2049 (cu CHR ''a''))) = Inl UrlTooLong"
proof -
  have a: "is_slug_char (cu CHR ''a'')"
    by (simp add: is_slug_char_def is_lower_alnum_def cu_def)
  have "stripControlChars (replicate 2049 (cu CHR ''a'')) = replicate 2049 (cu CHR ''a'')"
    using is_slug_char_plain(1) [OF a] by (rule stripControlChars_replicate)
  moreover have "trim (replicate 2049 (cu CHR ''a'')) = replicate 2049 (cu CHR ''a'')"
    using is_slug_char_plain(2) [OF a] by (intro trim_id) (simp add: list_all_iff)
  moreover have "nfkc sample_platform (replicate 2049 (cu CHR ''a'')) = replicate 2049 (cu CHR ''a'')"
    using is_slug_char_plain(3) [OF a] by (intro nfkc_ascii) (simp add: list_all_iff)
  ultimately have h: "2048 < length (nfkc sample_platform (trim (stripControlChars (replicate 2049 (cu CHR ''a'')))))"
    by simp
  with validateUrl_rejects_long_normalised [of sample_platform "replicate 2049 (cu CHR ''a'')"]
  show ?thesis by simp
qed

text \<open>
  The claim as stated fails: a valid URL followed by 2040 spaces has 2060 code units and
  is accepted, because the spaces are trimmed before the length is measured.
\<close>

theorem validateUrl_long_input_accepted_counterexample:
  "2048 < length (js ''https://example.com/'' @ replicate 2040 (cu CHR '' '')) \<and>
   validateUrl sample_platform (JStr (js ''https://example.com/'' @ replicate 2040 (cu CHR '' ''))) =
     Inr (js ''https://example.com/'')"
proof -
  have "stripControlChars (js ''https://example.com/'' @ replicate 2040 (cu CHR '' '')) =
        stripControlChars (js ''https://example.com/'') @ replicate 2040 (cu CHR '' '')"
    by (simp add: stripControlChars_append stripControlChars_replicate space_is_whitespace)
  also have "stripControlChars (js ''https://example.com/'') = js ''https://example.com/''"
    by code_simp
  finally have "trim (stripControlChars (js ''https://example.com/'' @ replicate 2040 (cu CHR '' ''))) =
        trim (js ''https://example.com/'' @ replicate 2040 (cu CHR '' ''))"
    by simp
  also have "\<dots> = trim (js ''https://example.com/'')"
  proof -
    have "\<not> is_whitespace (cu CHR ''h'')"
      by (simp add: is_whitespace_def WHITESPACE_CLASS_def in_class_def cu_def)
    then have "trim ((cu CHR ''h'' # js ''ttps://example.com/'') @ replicate 2040 (cu CHR '' '')) =
          trim (cu CHR ''h'' # js ''ttps://example.com/'')"
      using space_is_whitespace(1) by (rule trim_trailing_whitespace)
    then show ?thesis by (simp add: js_def)
  qed
  also have "\<dots> = trim (stripControlChars (js ''https://example.com/''))"
    by code_simp
  finally have "validateUrl sample_platform
          (JStr (js ''https://example.com/'' @ replicate 2040 (cu CHR '' ''))) =
        validateUrl sample_platform (JStr (js ''https://example.com/''))"
    by (intro validateUrl_cong) simp
  also have "\<dots> = Inr (js ''https://example.com/'')"
    by code_simp
  finally show ?thesis by (simp add: js_def)
qed

section \<open>URL validation: feeding a result back\<close>

lemma validateUrl_after_parse:
  assumes "nfkc P (trim (stripControlChars s)) = str" and "str \<noteq> []" and "length str \<le> 2048"
    and "schemeMatch str = Some g" and "toLowerCase P g = js ''http'' \<or> toLowerCase P g = js ''https''"
    and "url_parse P str = Some parsed"
  shows "validateUrl P (JStr s) = Inr u \<longleftrightarrow>
         passes_checks P parsed \<and> u = url_toString (normalise_url P parsed)"
proof (cases "passes_checks P parsed")
  case True
  then show ?thesis
    using assms
    by (auto simp add: validateUrl_def passes_checks_def normalise_url_def Let_def)
next
  case False
  then have "isl (validateUrl P (JStr s))"
    using assms
    by (auto simp add: validateUrl_def passes_checks_def Let_def)
  with False show ?thesis by (cases "validateUrl P (JStr s)") auto
qed

lemma validateUrl_Inr_iff:
  "validateUrl P (JStr s) = Inr u \<longleftrightarrow>
   (\<exists>g parsed. nfkc P (trim (stripControlChars s)) \<noteq> [] \<and>
      length (nfkc P (trim (stripControlChars s))) \<le> 2048 \<and>
      schemeMatch (nfkc P (trim (stripControlChars s))) = Some g \<and>
      (toLowerCase P g = js ''http'' \<or> toLowerCase P g = js ''https'') \<and>
      url_parse P (nfkc P (trim (stripControlChars s))) = Some parsed \<and>
      passes_checks P parsed \<and> u = url_toString (normalise_url P parsed))"
proof -
  define str where "str = nfkc P (trim (stripControlChars s))"
  consider (early) "str = [] \<or> 2048 < length str \<or> schemeMatch str = None \<or>
        (\<exists>g. schemeMatch str = Some g \<and> toLowerCase P g \<noteq> js ''http'' \<and> toLowerCase P g \<noteq> js ''https'') \<or>
        url_parse P str = None"
    | (parsed) g parsed where "str \<noteq> []" "length str \<le> 2048" "schemeMatch str = Some g"
        "toLowerCase P g = js ''http'' \<or> toLowerCase P g = js ''https''" "url_parse P str = Some parsed"
    by (cases "schemeMatch str"; cases "url_parse P str") (fastforce simp: not_less)+
  then show ?thesis
  proof cases
    case early
    then have "isl (validateUrl P (JStr s))"
      by (auto simp add: validateUrl_def Let_def str_def split: option.splits)
    moreover from early have "\<not> (\<exists>g parsed. str \<noteq> [] \<and> length str \<le> 2048 \<and> schemeMatch str = Some g \<and>
      (toLowerCase P g = js ''http'' \<or> toLowerCase P g = js ''https'') \<and>
      url_parse P str = Some parsed \<and>
      passes_checks P parsed \<and> u = url_toString (normalise_url P parsed))"
      by auto
    ultimately show ?thesis
      unfolding str_def by (cases "validateUrl P (JStr s)") auto
  next
    case parsed
    then show ?thesis
      using validateUrl_after_parse [of P s str g parsed u]
      unfolding str_def by auto
  qed
qed

lemma schemeMatch_http: "schemeMatch (js ''http://'' @ t) = Some (js ''http'')"
  by (simp add: schemeMatch_def re_match_group_def SCHEME_GROUP_def re_seq_def re_cls_i_def
      re_cls_def re_star_def re_lit_i_def js_def cu_def in_class_def ascii_lower_def ascii_upper_def)
lemma schemeMatch_https: "schemeMatch (js ''https://'' @ t) = Some (js ''https'')"
  by (simp add: schemeMatch_def re_match_group_def SCHEME_GROUP_def re_seq_def re_cls_i_def
      re_cls_def re_star_def re_lit_i_def js_def cu_def in_class_def ascii_lower_def ascii_upper_def)
lemma trim_clean_ends:
  assumes "s \<noteq> []" and "\<not> is_whitespace (hd s)" and "\<not> is_whitespace (last s)"
  shows "trim s = s"
proof -
  from assms(1,2) have "dropWhile is_whitespace s = s" by (cases s) simp_all
  moreover from assms(1,3) have "dropWhile is_whitespace (rev s) = rev s"
    by (cases "rev s") (simp_all add: hd_rev)
  ultimately show ?thesis by (simp add: trim_def)
qed

lemma clean_ascii_normal_form:
  assumes "list_all (\<lambda>c. \<not> sanitizer_removes c) s" and "list_all is_ascii s"
    and "s \<noteq> []" and "\<not> is_whitespace (hd s)" and "\<not> is_whitespace (last s)"
  shows "nfkc P (trim (stripControlChars s)) = s"
  using assms by (simp add: stripControlChars_id trim_clean_ends nfkc_ascii)

lemma toLowerCase_http:
  "toLowerCase P (js ''http'') = js ''http''" "toLowerCase P (js ''https'') = js ''https''"
  "toLowerCase P (js ''http:'') = js ''http:''" "toLowerCase P (js ''https:'') = js ''https:''"
  by code_simp+

lemma normalise_url_conforming:
  assumes "url_conforming P parsed"
    and "protocol parsed = js ''http:'' \<or> protocol parsed = js ''https:''"
  shows "normalise_url P parsed = parsed"
proof -
  from assms(2) have "toLowerCase P (protocol parsed) = protocol parsed"
    by (auto simp: toLowerCase_http)
  with assms(1) show ?thesis
    by (auto simp: normalise_url_def url_conforming_def Let_def)
qed

lemma url_toString_scheme:
  assumes "protocol parsed = js ''http:'' \<or> protocol parsed = js ''https:''"
  shows "(\<exists>t. url_toString parsed = js ''http://'' @ t) \<or> (\<exists>t. url_toString parsed = js ''https://'' @ t)"
  using assms by (auto simp: url_toString_def js_def)


text \<open>
  C7, as the code has it. If \<open>validateUrl\<close> accepts \<open>s\<close> with result \<open>u\<close>, the result has at
  most 2048 code units, and the URL object of the platform conforms to the URL Standard on
  the parsed URL (\<open>url_conforming\<close>), then \<open>validateUrl\<close> accepts \<open>u\<close> and returns \<open>u\<close>.
\<close>

theorem validateUrl_idempotent_when_short:
  assumes "validateUrl P (JStr s) = Inr u"
    and "length u \<le> 2048"
    and "url_parse P (nfkc P (trim (stripControlChars s))) = Some parsed"
    and "url_conforming P parsed"
  shows "validateUrl P (JStr u) = Inr u"
proof -
  from assms(1,3) have checks: "passes_checks P parsed"
    and u: "u = url_toString (normalise_url P parsed)"
    by (auto simp: validateUrl_Inr_iff)
  from checks have scheme: "protocol parsed = js ''http:'' \<or> protocol parsed = js ''https:''"
    by (simp add: passes_checks_def)
  with assms(4) have same: "normalise_url P parsed = parsed"
    by (rule normalise_url_conforming)
  with u have serial: "u = url_toString parsed" by simp
  with assms(4) have clean: "nfkc P (trim (stripControlChars u)) = u"
    and reparse: "url_parse P u = Some parsed"
    by (simp_all add: url_conforming_def)
  have "\<exists>g. schemeMatch u = Some g \<and> (toLowerCase P g = js ''http'' \<or> toLowerCase P g = js ''https'') \<and>
          u \<noteq> []"
    using url_toString_scheme [OF scheme]
  proof
    assume "\<exists>t. url_toString parsed = js ''http://'' @ t"
    then obtain t where "u = js ''http://'' @ t" using serial by auto
    then have "schemeMatch u = Some (js ''http'')" "u \<noteq> []"
      by (simp_all add: schemeMatch_http) (simp add: js_def)
    then show ?thesis by (simp add: toLowerCase_http)
  next
    assume "\<exists>t. url_toString parsed = js ''https://'' @ t"
    then obtain t where "u = js ''https://'' @ t" using serial by auto
    then have "schemeMatch u = Some (js ''https'')" "u \<noteq> []"
      by (simp_all add: schemeMatch_https) (simp add: js_def)
    then show ?thesis by (simp add: toLowerCase_http)
  qed
  then obtain g where g: "schemeMatch u = Some g"
      "toLowerCase P g = js ''http'' \<or> toLowerCase P g = js ''https''"
    and ne: "u \<noteq> []"
    by blast
  show ?thesis
    using validateUrl_after_parse [OF clean ne assms(2) g reparse, of u] checks same serial
    by simp
qed

theorem validateUrl_idempotent_when_short_witness:
  "validateUrl sample_platform (JStr (js ''https://Example.COM:443/path'')) =
     Inr (js ''https://example.com/path'') \<and>
   length (js ''https://example.com/path'') \<le> 2048 \<and>
   url_parse sample_platform
     (nfkc sample_platform (trim (stripControlChars (js ''https://Example.COM:443/path'')))) =
     Some (http_url ''https'' ''example.com'' (js ''/path'')) \<and>
   url_conforming sample_platform (http_url ''https'' ''example.com'' (js ''/path'')) \<and>
   validateUrl sample_platform (JStr (js ''https://example.com/path'')) =
     Inr (js ''https://example.com/path'')"
proof -
  have h1: "validateUrl sample_platform (JStr (js ''https://Example.COM:443/path'')) =
     Inr (js ''https://example.com/path'')"
    by code_simp
  have h2: "length (js ''https://example.com/path'') \<le> 2048"
    by (simp add: js_def)
  have h3: "url_parse sample_platform
     (nfkc sample_platform (trim (stripControlChars (js ''https://Example.COM:443/path'')))) =
     Some (http_url ''https'' ''example.com'' (js ''/path''))"
    by code_simp
  have h4: "url_conforming sample_platform (http_url ''https'' ''example.com'' (js ''/path''))"
    unfolding url_conforming_def by code_simp
  from validateUrl_idempotent_when_short [OF h1 h2 h3 h4] h1 h2 h3 h4
  show ?thesis by simp
qed


lemma length_concat_replicate: "length (concat (replicate n w)) = n * length w"
  by (induction n) simp_all

lemma set_concat_replicate: "set (concat (replicate n w)) \<subseteq> set w"
  by (induction n) auto

lemma list_all_concat_replicate: "list_all Q w \<Longrightarrow> list_all Q (concat (replicate n w))"
  using set_concat_replicate [of n w] by (auto simp: list_all_iff)

lemma example_com_passes: "passes_checks sample_platform (http_url ''https'' ''example.com'' path)"
proof -
  have "includes_sub (js ''example.com'') (js ''.'')"
    by code_simp
  moreover have "\<not> isBlockedHostname sample_platform (js ''example.com'')"
    by code_simp
  ultimately show ?thesis
    by (simp add: passes_checks_def http_url_def js_def)
qed

lemma example_com_normalised:
  "normalise_url sample_platform (http_url ''https'' ''example.com'' path) =
   http_url ''https'' ''example.com'' path"
proof -
  have "toLowerCase sample_platform (js ''https'' @ js '':'') = js ''https'' @ js '':''"
    "toLowerCase sample_platform (js ''example.com'') = js ''example.com''"
    "js ''https'' @ js '':'' \<noteq> js ''http:''" "[] \<noteq> js ''443''"
    by code_simp+
  then show ?thesis
    by (simp add: normalise_url_def http_url_def sample_platform_def Let_def)
qed

text \<open>
  The claim as stated fails: percent-encoding can make the result longer than the input.
  A URL of 721 code units whose path holds 700 spaces is accepted, each space becomes
  \<^verbatim>\<open>%20\<close>, and the result of 2121 code units is rejected as too long.
\<close>

theorem validateUrl_not_idempotent_counterexample:
  "validateUrl sample_platform
     (JStr (js ''https://example.com/'' @ replicate 700 (cu CHR '' '') @ js ''a'')) =
     Inr (js ''https://example.com/'' @ concat (replicate 700 (js ''%20'')) @ js ''a'') \<and>
   validateUrl sample_platform
     (JStr (js ''https://example.com/'' @ concat (replicate 700 (js ''%20'')) @ js ''a'')) =
     Inl UrlTooLong"
proof
  let ?s = "js ''https://example.com/'' @ replicate 700 (cu CHR '' '') @ js ''a''"
  let ?u = "js ''https://example.com/'' @ concat (replicate 700 (js ''%20'')) @ js ''a''"
  let ?parsed = "http_url ''https'' ''example.com'' (js ''/'' @ concat (replicate 700 (js ''%20'')) @ js ''a'')"
  have ends: "\<not> is_whitespace (cu CHR ''h'')" "\<not> is_whitespace (cu CHR ''a'')"
    by code_simp+
  have pieces: "list_all (\<lambda>c. \<not> sanitizer_removes c) (js ''https://example.com/'')"
    "list_all is_ascii (js ''https://example.com/'')"
    "list_all (\<lambda>c. \<not> sanitizer_removes c) (js ''a'')" "list_all is_ascii (js ''a'')"
    "list_all (\<lambda>c. \<not> sanitizer_removes c) (js ''%20'')" "list_all is_ascii (js ''%20'')"
    "\<not> sanitizer_removes (cu CHR '' '')" "is_ascii (cu CHR '' '')"
    by code_simp+
  have str: "nfkc sample_platform (trim (stripControlChars ?s)) = ?s"
    using pieces ends by (intro clean_ascii_normal_form) (simp_all add: list_all_iff, simp_all add: js_def)
  have len: "?s \<noteq> []" "length ?s \<le> 2048"
    by (simp_all add: js_def)
  have scheme: "schemeMatch ?s = Some (js ''https'')"
    using schemeMatch_https [of "js ''example.com/'' @ replicate 700 (cu CHR '' '') @ js ''a''"]
    by (simp add: js_def)
  have parse: "url_parse sample_platform ?s = Some ?parsed"
    by (simp add: sample_platform_def sample_url_parse_def) (simp add: js_def cu_def)
  have "url_toString ?parsed = ?u"
    by (simp add: url_toString_def http_url_def js_def)
  then show "validateUrl sample_platform (JStr ?s) = Inr ?u"
    using validateUrl_after_parse [OF str len scheme _ parse, of ?u]
      example_com_passes example_com_normalised
    by (simp add: toLowerCase_http)
  have "nfkc sample_platform (trim (stripControlChars ?u)) = ?u"
    using pieces ends
    by (intro clean_ascii_normal_form)
      (simp_all add: list_all_concat_replicate, simp_all add: js_def)
  moreover have "2048 < length ?u"
    by (simp add: length_concat_replicate js_def)
  moreover have "?u \<noteq> []"
    by (simp add: js_def)
  ultimately show "validateUrl sample_platform (JStr ?u) = Inl UrlTooLong"
    by (simp add: validateUrl_def Let_def)
qed

section \<open>The network address classifier on IPv4 literals\<close>

lemma unat_digit_char: "k \<le> 9 \<Longrightarrow> unat (digit_char k) = 48 + k"
proof -
  assume "k \<le> 9"
  then have "unat (of_nat k :: 16 word) = k"
    by (simp add: unat_of_nat take_bit_nat_eq_self_iff)
  moreover have "unat (cu CHR ''0'') = 48" by (simp add: cu_def)
  ultimately show ?thesis
    using \<open>k \<le> 9\<close> by (simp add: digit_char_def unat_word_ariths)
qed

lemma digit_char_eq_iff: "j \<le> 9 \<Longrightarrow> k \<le> 9 \<Longrightarrow> digit_char j = digit_char k \<longleftrightarrow> j = k"
  by (simp add: word_unat_eq_iff unat_digit_char)

lemma in_class_digit_range:
  "lo \<le> 9 \<Longrightarrow> hi \<le> 9 \<Longrightarrow> k \<le> 9 \<Longrightarrow>
   in_class [(digit_char lo, digit_char hi)] (digit_char k) \<longleftrightarrow> lo \<le> k \<and> k \<le> hi"
  by (simp add: in_class_def word_le_nat_alt unat_digit_char)

lemma digit_literals:
  "cu CHR ''0'' = digit_char 0" "cu CHR ''1'' = digit_char 1" "cu CHR ''2'' = digit_char 2"
  "cu CHR ''3'' = digit_char 3" "cu CHR ''4'' = digit_char 4" "cu CHR ''5'' = digit_char 5"
  "cu CHR ''6'' = digit_char 6" "cu CHR ''7'' = digit_char 7" "cu CHR ''8'' = digit_char 8"
  "cu CHR ''9'' = digit_char 9"
  by (simp_all add: digit_char_def cu_def)

lemma digit_char_plain:
  assumes "k \<le> 9"
  shows "in_class DIGIT (digit_char k)" and "is_ascii (digit_char k)"
    and "ascii_lower (digit_char k) = digit_char k"
proof -
  show "in_class DIGIT (digit_char k)"
    using assms in_class_digit_range [of 0 9 k] by (simp add: DIGIT_def digit_literals)
  show "is_ascii (digit_char k)"
    using assms by (simp add: is_ascii_def word_less_nat_alt unat_digit_char)
  show "ascii_lower (digit_char k) = digit_char k"
    using assms by (simp add: ascii_lower_def word_le_nat_alt unat_digit_char)
qed

lemma decimal_digits:
  assumes "n < 1000"
  shows "list_all (in_class DIGIT) (decimal n)" and "1 \<le> length (decimal n)"
    and "length (decimal n) \<le> 3" and "list_all is_ascii (decimal n)"
    and "map ascii_lower (decimal n) = decimal n"
proof -
  have d: "n div 100 \<le> 9" "n div 10 mod 10 \<le> 9" "n mod 10 \<le> 9" "n < 100 \<Longrightarrow> n div 10 \<le> 9"
    using assms by simp_all
  show "list_all (in_class DIGIT) (decimal n)" "list_all is_ascii (decimal n)"
    "map ascii_lower (decimal n) = decimal n"
    using d by (simp_all add: decimal_def digit_char_plain)
  show "1 \<le> length (decimal n)" "length (decimal n) \<le> 3"
    by (simp_all add: decimal_def)
qed

lemma dot_plain: "is_ascii (cu CHR ''.'')" "ascii_lower (cu CHR ''.'') = cu CHR ''.''"
  by (simp_all add: is_ascii_def ascii_lower_def cu_def)

lemma toLowerCase_dotted_quad:
  assumes "a < 256" "b < 256" "c < 256" "d < 256"
  shows "toLowerCase P (dotted_quad a b c d) = dotted_quad a b c d"
proof -
  have "list_all is_ascii (dotted_quad a b c d)"
    using assms by (simp add: dotted_quad_def decimal_digits js_def dot_plain)
  moreover have "map ascii_lower (dotted_quad a b c d) = dotted_quad a b c d"
    using assms by (simp add: dotted_quad_def decimal_digits js_def dot_plain)
  ultimately show ?thesis by (simp add: toLowerCase_def)
qed

lemma re_rep_Suc_set:
  "r \<in> set (re_rep lo (Suc hi) p s) \<longleftrightarrow>
   (\<exists>m \<in> set (p s). r \<in> set (re_rep (lo - 1) hi p m)) \<or> (lo = 0 \<and> r = s)"
  by auto

lemma dot_decimal_step:
  assumes "n < 1000"
  shows "t \<in> set (re_seq (re_lit (js ''.'')) (re_rep 1 3 (re_cls (in_class DIGIT))) (js ''.'' @ decimal n @ t))"
proof -
  have "t \<in> set (re_rep 1 3 (re_cls (in_class DIGIT)) (decimal n @ t))"
    unfolding re_rep_cls_set using decimal_digits [OF assms] by (intro exI [of _ "decimal n"]) simp
  then show ?thesis
    by (auto simp: re_seq_set re_lit_set)
qed

lemma IPV4_RE_dotted_quad:
  assumes "a < 256" "b < 256" "c < 256" "d < 256"
  shows "re_test IPV4_RE (dotted_quad a b c d)"
proof -
  let ?G = "re_seq (re_lit (js ''.'')) (re_rep 1 3 (re_cls (in_class DIGIT)))"
  let ?t3 = "js ''.'' @ decimal d"
  let ?t2 = "js ''.'' @ decimal c @ ?t3"
  let ?t1 = "js ''.'' @ decimal b @ ?t2"
  have n: "a < 1000" "b < 1000" "c < 1000" "d < 1000" using assms by simp_all
  have "[] \<in> set (re_rep 0 0 ?G [])" by simp
  moreover have "[] \<in> set (?G ?t3)"
    using dot_decimal_step [OF n(4), of "[]"] by simp
  ultimately have s3: "[] \<in> set (re_rep 1 1 ?G ?t3)"
    unfolding One_nat_def re_rep_Suc_set by auto
  have "?t3 \<in> set (?G ?t2)"
    using dot_decimal_step [OF n(3), of ?t3] by simp
  with s3 have s2: "[] \<in> set (re_rep 2 2 ?G ?t2)"
    unfolding numeral_2_eq_2 re_rep_Suc_set by (auto simp: numeral_2_eq_2)
  have "?t2 \<in> set (?G ?t1)"
    using dot_decimal_step [OF n(2), of ?t2] by simp
  with s2 have s1: "[] \<in> set (re_rep 3 3 ?G ?t1)"
    unfolding numeral_3_eq_3 re_rep_Suc_set by (auto simp: numeral_2_eq_2)
  have "?t1 \<in> set (re_rep 1 3 (re_cls (in_class DIGIT)) (decimal a @ ?t1))"
    unfolding re_rep_cls_set using decimal_digits [OF n(1)] by (intro exI [of _ "decimal a"]) simp
  with s1 have "[] \<in> set (IPV4_RE (dotted_quad a b c d))"
    by (auto simp: IPV4_RE_def dotted_quad_def re_seq_set re_eos_set)
  then show ?thesis by (auto simp: re_test_set)
qed

lemma re_lit_prefix: "re_lit w (w @ t) = [t]"
  by (simp add: re_lit_def)

lemma re_test_lit_prefix: "re_test (re_lit w) (w @ t)"
  by (simp add: re_test_def re_lit_prefix)

lemma re_test_seq_lit: "re_test (re_seq (re_lit w) q) (w @ t) = re_test q t"
  by (simp add: re_test_def re_seq_def re_lit_prefix)

lemma decimal_literals:
  "decimal 0 = js ''0''" "decimal 10 = js ''10''" "decimal 51 = js ''51''"
  "decimal 100 = js ''100''" "decimal 113 = js ''113''" "decimal 127 = js ''127''"
  "decimal 168 = js ''168''" "decimal 169 = js ''169''" "decimal 172 = js ''172''"
  "decimal 192 = js ''192''" "decimal 198 = js ''198''" "decimal 203 = js ''203''"
  "decimal 240 = js ''240''" "decimal 254 = js ''254''" "decimal 255 = js ''255''"
  by (simp_all add: decimal_def digit_char_def js_def cu_def)

lemma js_append: "js (x @ y) = js x @ js y"
  by (simp add: js_def)

lemma re_lit_Nil: "re_lit [] t = [t]"
  by (simp add: re_lit_def)

lemma re_lit_Cons: "re_lit (c # w) (c' # t) = (if c' = c then re_lit w t else [])"
  by (simp add: re_lit_def)

lemma re_cls_Cons: "re_cls p (c # t) = (if p c then [t] else [])"
  by (simp add: re_cls_def)

lemmas run_pattern =
  re_alt_def re_seq_def re_lit_Nil re_lit_Cons re_cls_Cons js_def digit_literals DIGIT_def
  in_class_digit_range digit_char_eq_iff

lemma two_digits:
  assumes "10 \<le> n" and "n < 100"
  shows "\<exists>q r. n = 10 * q + r \<and> q \<le> 9 \<and> r \<le> 9 \<and> decimal n = [digit_char q, digit_char r]"
proof (intro exI conjI)
  show "n = 10 * (n div 10) + n mod 10" by simp
  show "n div 10 \<le> 9" using assms by simp
  show "n mod 10 \<le> 9" by simp
  show "decimal n = [digit_char (n div 10), digit_char (n mod 10)]"
    using assms by (simp add: decimal_def)
qed

lemma decimal_1xx:
  assumes "m < 100"
  shows "decimal (100 + m) = [digit_char 1, digit_char (m div 10), digit_char (m mod 10)]"
proof -
  have "(100 + m) div 100 = 1" using assms by simp
  moreover have "(100 + m) div 10 mod 10 = m div 10"
  proof -
    have "(100 + m) div 10 = 10 + m div 10" by simp
    moreover have "m div 10 < 10" using assms by simp
    ultimately show ?thesis by simp
  qed
  moreover have "(100 + m) mod 10 = m mod 10"
  proof -
    have "(100 + m) mod 10 = (10 * 10 + m) mod 10" by simp
    also have "\<dots> = m mod 10" by (simp only: mod_mult_self4)
    finally show ?thesis .
  qed
  ultimately show ?thesis by (simp add: decimal_def)
qed

lemma three_digits_1xx:
  assumes "100 \<le> n" and "n < 200"
  shows "\<exists>q r. n = 100 + 10 * q + r \<and> q \<le> 9 \<and> r \<le> 9 \<and>
           decimal n = [digit_char 1, digit_char q, digit_char r]"
proof -
  define m where "m = n - 100"
  with assms have m: "n = 100 + m" "m < 100"
    by simp_all
  show ?thesis
  proof (intro exI conjI)
    show "n = 100 + 10 * (m div 10) + m mod 10" using m by simp
    show "m div 10 \<le> 9" using m by simp
    show "m mod 10 \<le> 9" by simp
    show "decimal n = [digit_char 1, digit_char (m div 10), digit_char (m mod 10)]"
      using m decimal_1xx by simp
  qed
qed

lemma second_octet_172:
  assumes "16 \<le> b" and "b \<le> 31"
  shows "t \<in> set (re_alt (re_seq (re_lit (js ''1'')) (re_cls (in_class [(cu CHR ''6'', cu CHR ''9'')])))
            (re_alt (re_seq (re_lit (js ''2'')) (re_cls (in_class DIGIT)))
              (re_seq (re_lit (js ''3'')) (re_cls (in_class [(cu CHR ''0'', cu CHR ''1'')]))))
            (decimal b @ t))"
proof -
  from assms have "10 \<le> b" "b < 100" by simp_all
  from two_digits [OF this] obtain q r where b: "b = 10 * q + r" "q \<le> 9" "r \<le> 9"
    and dec: "decimal b = [digit_char q, digit_char r]"
    by blast
  from assms b have "(q = 1 \<and> 6 \<le> r) \<or> q = 2 \<or> (q = 3 \<and> r \<le> 1)"
    by linarith
  then consider "q = 1" "6 \<le> r" | "q = 2" | "q = 3" "r \<le> 1"
    by blast
  then show ?thesis
  proof cases
    case 1
    with b(2,3) show ?thesis unfolding dec by (simp add: run_pattern)
  next
    case 2
    with b(2,3) show ?thesis unfolding dec by (simp add: run_pattern)
  next
    case 3
    with b(2,3) show ?thesis unfolding dec by (simp add: run_pattern)
  qed
qed

lemma second_octet_100:
  assumes "64 \<le> b" and "b \<le> 127"
  shows "t \<in> set (re_alt (re_seq (re_lit (js ''6'')) (re_cls (in_class [(cu CHR ''4'', cu CHR ''9'')])))
            (re_alt (re_seq (re_cls (in_class [(cu CHR ''7'', cu CHR ''9'')])) (re_cls (in_class DIGIT)))
              (re_alt
                (re_seq (re_lit (js ''1''))
                  (re_seq (re_cls (in_class [(cu CHR ''0'', cu CHR ''1'')])) (re_cls (in_class DIGIT))))
                (re_seq (re_lit (js ''12'')) (re_cls (in_class [(cu CHR ''0'', cu CHR ''7'')])))))
            (decimal b @ t))"
proof (cases "b < 100")
  case True
  with assms have "10 \<le> b" "b < 100" by simp_all
  from two_digits [OF this] obtain q r where b: "b = 10 * q + r" "q \<le> 9" "r \<le> 9"
    and dec: "decimal b = [digit_char q, digit_char r]"
    by blast
  from assms b have "(q = 6 \<and> 4 \<le> r) \<or> 7 \<le> q"
    by linarith
  then consider "q = 6" "4 \<le> r" | "7 \<le> q"
    by blast
  then show ?thesis
  proof cases
    case 1
    with b(2,3) show ?thesis unfolding dec by (simp add: run_pattern)
  next
    case 2
    with b(2,3) show ?thesis unfolding dec by (simp add: run_pattern)
  qed
next
  case False
  with assms have "100 \<le> b" "b < 200" by simp_all
  from three_digits_1xx [OF this] obtain q r where b: "b = 100 + 10 * q + r" "q \<le> 9" "r \<le> 9"
    and dec: "decimal b = [digit_char 1, digit_char q, digit_char r]"
    by blast
  from assms b have "q \<le> 1 \<or> (q = 2 \<and> r \<le> 7)"
    by linarith
  then consider "q \<le> 1" | "q = 2" "r \<le> 7"
    by blast
  then show ?thesis
  proof cases
    case 1
    with b(2,3) show ?thesis unfolding dec by (simp add: run_pattern)
  next
    case 2
    with b(2,3) show ?thesis unfolding dec by (simp add: run_pattern)
  qed
qed

lemma validateUrl_at_address_check:
  assumes "reaches_address_check P s parsed"
  shows "validateUrl P (JStr s) =
         (if isBlockedHostname P (hostname parsed) then Inl UrlBlockedAddress
          else Inr (url_toString (normalise_url P parsed)))"
proof -
  let ?str = "nfkc P (trim (stripControlChars s))"
  from assms obtain g where g: "schemeMatch ?str = Some g"
      "toLowerCase P g = js ''http'' \<or> toLowerCase P g = js ''https''"
    and early: "?str \<noteq> []" "length ?str \<le> 2048" "url_parse P ?str = Some parsed"
    and checks: "protocol parsed = js ''http:'' \<or> protocol parsed = js ''https:''"
      "username parsed = []" "password parsed = []" "hostname parsed \<noteq> []"
      "re_test IPV4_RE (hostname parsed) \<or> includes_sub (hostname parsed) (js '':'') \<or>
       includes_sub (hostname parsed) (js ''.'')"
    unfolding reaches_address_check_def Let_def by blast
  have scheme: "\<not> (toLowerCase P g \<noteq> js ''http'' \<and> toLowerCase P g \<noteq> js ''https'')"
    using g(2) by blast
  have proto: "\<not> (protocol parsed \<noteq> js ''http:'' \<and> protocol parsed \<noteq> js ''https:'')"
    using checks(1) by blast
  have host: "\<not> (\<not> (re_test IPV4_RE (hostname parsed) \<or> includes_sub (hostname parsed) (js '':'')) \<and>
      \<not> includes_sub (hostname parsed) (js ''.''))"
    using checks(5) by blast
  have "validateUrl P (JStr s) =
        (if isBlockedHostname P (hostname parsed) then Inl UrlBlockedAddress
         else Inr (url_toString (normalise_url P parsed)))"
    using early(1,2)
    by (simp only: validateUrl_def normalise_url_def Let_def json.case g(1) early(3) option.case
        scheme proto host checks(2,3,4) if_False if_True length_0_conv not_less [symmetric]
        simp_thms)
  then show ?thesis .
qed

lemma isBlockedHostname_if_pattern:
  assumes "a < 256" "b < 256" "c < 256" "d < 256"
    and "re \<in> set BLOCKED_IPV4" and "re_test re (dotted_quad a b c d)"
  shows "isBlockedHostname P (dotted_quad a b c d)"
proof -
  have "list_ex (\<lambda>re. re_test re (dotted_quad a b c d)) BLOCKED_IPV4"
    using assms(5,6) by (auto simp: list_ex_iff)
  then show ?thesis
    using assms(1-4)
    by (simp add: isBlockedHostname_def toLowerCase_dotted_quad IPV4_RE_dotted_quad)
qed

lemma first_octet_literal:
  "dotted_quad 0 b c d = js ''0.'' @ decimal b @ js ''.'' @ decimal c @ js ''.'' @ decimal d"
  "dotted_quad 127 b c d = js ''127.'' @ decimal b @ js ''.'' @ decimal c @ js ''.'' @ decimal d"
  "dotted_quad 10 b c d = js ''10.'' @ decimal b @ js ''.'' @ decimal c @ js ''.'' @ decimal d"
  "dotted_quad 240 b c d = js ''240.'' @ decimal b @ js ''.'' @ decimal c @ js ''.'' @ decimal d"
  "dotted_quad 172 b c d = js ''172.'' @ decimal b @ js ''.'' @ decimal c @ js ''.'' @ decimal d"
  "dotted_quad 100 b c d = js ''100.'' @ decimal b @ js ''.'' @ decimal c @ js ''.'' @ decimal d"
  "dotted_quad 192 168 c d = js ''192.168.'' @ decimal c @ js ''.'' @ decimal d"
  "dotted_quad 169 254 c d = js ''169.254.'' @ decimal c @ js ''.'' @ decimal d"
  "dotted_quad 198 51 100 d = js ''198.51.100.'' @ decimal d"
  "dotted_quad 203 0 113 d = js ''203.0.113.'' @ decimal d"
  "dotted_quad 255 255 255 255 = js ''255.255.255.255'' @ []"
  by (simp_all add: dotted_quad_def decimal_literals js_def)

lemma octet_pattern:
  assumes "t \<in> set (alt (decimal b @ t))" and "t = js ''.'' @ rest"
  shows "re_test (re_seq (re_lit w) (re_seq alt (re_lit (js ''.'')))) (w @ decimal b @ js ''.'' @ rest)"
proof -
  have "rest \<in> set (re_lit (js ''.'') t)"
    using assms(2) by (simp add: re_lit_prefix)
  with assms(1) have "rest \<in> set (re_seq alt (re_lit (js ''.'')) (decimal b @ t))"
    by (auto simp: re_seq_set)
  then have "re_test (re_seq alt (re_lit (js ''.''))) (decimal b @ js ''.'' @ rest)"
    unfolding re_test_set assms(2) by blast
  then show ?thesis
    by (simp only: re_test_seq_lit)
qed

lemma blocked_pattern_exists:
  assumes "in_listed_range a b c d"
    and "a \<le> 240 \<or> (a = 255 \<and> b = 255 \<and> c = 255 \<and> d = 255)"
  shows "\<exists>re \<in> set BLOCKED_IPV4. re_test re (dotted_quad a b c d)"
proof -
  have r: "a = 240 \<or> (a = 255 \<and> b = 255 \<and> c = 255 \<and> d = 255)" if "240 \<le> a"
    using that assms(2) by (cases "a \<le> 240") simp_all
  from assms(1) r
  have "a = 0 \<or> a = 127 \<or> a = 10 \<or> (a = 172 \<and> 16 \<le> b \<and> b \<le> 31) \<or> (a = 192 \<and> b = 168) \<or>
      (a = 169 \<and> b = 254) \<or> (a = 100 \<and> 64 \<le> b \<and> b \<le> 127) \<or>
      (a = 198 \<and> b = 51 \<and> c = 100) \<or> (a = 203 \<and> b = 0 \<and> c = 113) \<or> a = 240 \<or>
      (a = 255 \<and> b = 255 \<and> c = 255 \<and> d = 255)"
    unfolding in_listed_range_def by blast
  then consider (zero) "a = 0" | (loopback) "a = 127" | (ten) "a = 10"
    | (private172) "a = 172" "16 \<le> b" "b \<le> 31" | (private192) "a = 192" "b = 168"
    | (linklocal) "a = 169" "b = 254" | (cgnat) "a = 100" "64 \<le> b" "b \<le> 127"
    | (testnet2) "a = 198" "b = 51" "c = 100" | (testnet3) "a = 203" "b = 0" "c = 113"
    | (reserved) "a = 240" | (broadcast) "a = 255" "b = 255" "c = 255" "d = 255"
    by blast
  then show ?thesis
  proof cases
    case zero
    have "re_lit (js ''0.'') \<in> set BLOCKED_IPV4" by (simp add: BLOCKED_IPV4_def)
    then show ?thesis
      unfolding zero first_octet_literal using re_test_lit_prefix by blast
  next
    case loopback
    have "re_lit (js ''127.'') \<in> set BLOCKED_IPV4" by (simp add: BLOCKED_IPV4_def)
    then show ?thesis
      unfolding loopback first_octet_literal using re_test_lit_prefix by blast
  next
    case ten
    have "re_lit (js ''10.'') \<in> set BLOCKED_IPV4" by (simp add: BLOCKED_IPV4_def)
    then show ?thesis
      unfolding ten first_octet_literal using re_test_lit_prefix by blast
  next
    case private172
    let ?alt = "re_alt (re_seq (re_lit (js ''1'')) (re_cls (in_class [(cu CHR ''6'', cu CHR ''9'')])))
            (re_alt (re_seq (re_lit (js ''2'')) (re_cls (in_class DIGIT)))
              (re_seq (re_lit (js ''3'')) (re_cls (in_class [(cu CHR ''0'', cu CHR ''1'')]))))"
    have "re_seq (re_lit (js ''172.'')) (re_seq ?alt (re_lit (js ''.''))) \<in> set BLOCKED_IPV4"
      by (simp add: BLOCKED_IPV4_def)
    moreover have "re_test (re_seq (re_lit (js ''172.'')) (re_seq ?alt (re_lit (js ''.''))))
        (js ''172.'' @ decimal b @ js ''.'' @ decimal c @ js ''.'' @ decimal d)"
      using second_octet_172 [OF private172(2,3)] by (rule octet_pattern) simp
    ultimately show ?thesis
      unfolding private172(1) first_octet_literal by blast
  next
    case private192
    have "re_lit (js ''192.168.'') \<in> set BLOCKED_IPV4" by (simp add: BLOCKED_IPV4_def)
    then show ?thesis
      unfolding private192 first_octet_literal using re_test_lit_prefix by blast
  next
    case linklocal
    have "re_lit (js ''169.254.'') \<in> set BLOCKED_IPV4" by (simp add: BLOCKED_IPV4_def)
    then show ?thesis
      unfolding linklocal first_octet_literal using re_test_lit_prefix by blast
  next
    case cgnat
    let ?alt = "re_alt (re_seq (re_lit (js ''6'')) (re_cls (in_class [(cu CHR ''4'', cu CHR ''9'')])))
            (re_alt (re_seq (re_cls (in_class [(cu CHR ''7'', cu CHR ''9'')])) (re_cls (in_class DIGIT)))
              (re_alt
                (re_seq (re_lit (js ''1''))
                  (re_seq (re_cls (in_class [(cu CHR ''0'', cu CHR ''1'')])) (re_cls (in_class DIGIT))))
                (re_seq (re_lit (js ''12'')) (re_cls (in_class [(cu CHR ''0'', cu CHR ''7'')])))))"
    have "re_seq (re_lit (js ''100.'')) (re_seq ?alt (re_lit (js ''.''))) \<in> set BLOCKED_IPV4"
      by (simp add: BLOCKED_IPV4_def)
    moreover have "re_test (re_seq (re_lit (js ''100.'')) (re_seq ?alt (re_lit (js ''.''))))
        (js ''100.'' @ decimal b @ js ''.'' @ decimal c @ js ''.'' @ decimal d)"
      using second_octet_100 [OF cgnat(2,3)] by (rule octet_pattern) simp
    ultimately show ?thesis
      unfolding cgnat(1) first_octet_literal by blast
  next
    case testnet2
    have "re_lit (js ''198.51.100.'') \<in> set BLOCKED_IPV4" by (simp add: BLOCKED_IPV4_def)
    then show ?thesis
      unfolding testnet2 first_octet_literal using re_test_lit_prefix by blast
  next
    case testnet3
    have "re_lit (js ''203.0.113.'') \<in> set BLOCKED_IPV4" by (simp add: BLOCKED_IPV4_def)
    then show ?thesis
      unfolding testnet3 first_octet_literal using re_test_lit_prefix by blast
  next
    case reserved
    have "re_lit (js ''240.'') \<in> set BLOCKED_IPV4" by (simp add: BLOCKED_IPV4_def)
    then show ?thesis
      unfolding reserved first_octet_literal using re_test_lit_prefix by blast
  next
    case broadcast
    have "re_seq (re_lit (js ''255.255.255.255'')) re_eos \<in> set BLOCKED_IPV4"
      by (simp add: BLOCKED_IPV4_def)
    moreover have "re_test (re_seq (re_lit (js ''255.255.255.255'')) re_eos) (js ''255.255.255.255'' @ [])"
      unfolding re_test_seq_lit by (simp add: re_test_def re_eos_def)
    ultimately show ?thesis
      unfolding broadcast first_octet_literal by blast
  qed
qed

text \<open>
  Every dotted-quad host in one of the listed ranges whose first number is at most 240, and
  the broadcast address, is classified as blocked, and an input that is accepted up to the
  address check with such a host fails with the blocked-address error. The boundaries are
  exact: 172.16 to 172.31 and 100.64 to 100.127.
\<close>

theorem isBlockedHostname_blocks_listed_ranges:
  assumes "a < 256" "b < 256" "c < 256" "d < 256"
    and "in_listed_range a b c d"
    and "a \<le> 240 \<or> (a = 255 \<and> b = 255 \<and> c = 255 \<and> d = 255)"
  shows "isBlockedHostname P (dotted_quad a b c d)"
    and "reaches_address_check P s parsed \<Longrightarrow> hostname parsed = dotted_quad a b c d \<Longrightarrow>
         validateUrl P (JStr s) = Inl UrlBlockedAddress"
proof -
  from blocked_pattern_exists [OF assms(5,6)]
  obtain re where "re \<in> set BLOCKED_IPV4" "re_test re (dotted_quad a b c d)"
    by blast
  with assms(1-4) show blocked: "isBlockedHostname P (dotted_quad a b c d)"
    by (rule isBlockedHostname_if_pattern)
  show "validateUrl P (JStr s) = Inl UrlBlockedAddress"
    if "reaches_address_check P s parsed" "hostname parsed = dotted_quad a b c d"
    using validateUrl_at_address_check [OF that(1)] blocked that(2) by simp
qed

text \<open>
  C1. The listed range 240.0.0.0/4 holds every address whose first number is 240 to 255,
  but the pattern of the classifier for the reserved block, \<^verbatim>\<open>/^240\./\<close>, matches the
  first number 240 only. The address 241.0.0.1 lies in the listed range, the classifier
  does not block it, and \<open>validateUrl\<close> accepts \<^verbatim>\<open>http://241.0.0.1/\<close>, which is accepted up
  to the address check, instead of failing with the blocked-address error.
\<close>

theorem reserved_241_not_blocked:
  "dotted_quad 241 0 0 1 = js ''241.0.0.1'' \<and>
   in_listed_range 241 0 0 1 \<and>
   \<not> isBlockedHostname P (js ''241.0.0.1'') \<and>
   reaches_address_check sample_platform (js ''http://241.0.0.1/'') (http_url ''http'' ''241.0.0.1'' (js ''/'')) \<and>
   validateUrl sample_platform (JStr (js ''http://241.0.0.1/'')) = Inr (js ''http://241.0.0.1/'')"
proof (intro conjI)
  show "dotted_quad 241 0 0 1 = js ''241.0.0.1''"
    by (simp add: dotted_quad_def decimal_def digit_char_def js_def cu_def)
  show "in_listed_range 241 0 0 1"
    by (simp add: in_listed_range_def)
  show "\<not> isBlockedHostname P (js ''241.0.0.1'')"
    by code_simp
  show "validateUrl sample_platform (JStr (js ''http://241.0.0.1/'')) = Inr (js ''http://241.0.0.1/'')"
    by code_simp
  have str: "nfkc sample_platform (trim (stripControlChars (js ''http://241.0.0.1/''))) = js ''http://241.0.0.1/''"
    by code_simp
  have parse: "url_parse sample_platform (js ''http://241.0.0.1/'') = Some (http_url ''http'' ''241.0.0.1'' (js ''/''))"
    by code_simp
  have scheme: "schemeMatch (js ''http://241.0.0.1/'') = Some (js ''http'')"
    using schemeMatch_http [of "js ''241.0.0.1/''"] by (simp add: js_def)
  have ip: "re_test IPV4_RE (js ''241.0.0.1'')"
    by code_simp
  have misc: "js ''http://241.0.0.1/'' \<noteq> []" "length (js ''http://241.0.0.1/'') \<le> 2048"
    "js ''241.0.0.1'' \<noteq> []" "js ''http'' @ js '':'' = js ''http:''"
    by (simp_all add: js_def)
  show "reaches_address_check sample_platform (js ''http://241.0.0.1/'') (http_url ''http'' ''241.0.0.1'' (js ''/''))"
    unfolding reaches_address_check_def Let_def str
    using parse scheme ip misc by (simp add: http_url_def toLowerCase_http)
qed

theorem reserved_241_not_blocked_witness:
  "\<not> isBlockedHostname sample_platform (js ''241.0.0.1'') \<and>
   validateUrl sample_platform (JStr (js ''http://241.0.0.1/'')) = Inr (js ''http://241.0.0.1/'')"
  using reserved_241_not_blocked [of sample_platform] by blast

end
